theory Spec2Isabelle
  imports Complex_Main "HOL-Library.Multiset" "HOL-Library.Product_Lexorder"
begin

section \<open>UPI transaction analysis: the feature pipeline and the forecast evaluation\<close>

text \<open>
  A shallow embedding of \<^verbatim>\<open>upi_analysis.py\<close>: \<^verbatim>\<open>load_and_clean_data\<close>,
  \<^verbatim>\<open>create_features\<close> and \<^verbatim>\<open>forecast_transactions\<close>. A data frame is the list of
  its rows in positional order. The pandas, numpy, scikit-learn and Prophet calls of the
  script are written out as the functions below, one per call, named after the call.
  Arithmetic is binary64 arithmetic, written out with its rounding. What the source does
  not fix is a parameter: the outcome of reading a path, the parser of number texts, the
  parser of date texts, the order in which numpy adds up an array, and Prophet's
  numerical core.
\<close>

subsection \<open>Numbers of a float64 column\<close>

text \<open>
  A binary64 value: a finite number, negative zero, an infinity or NaN (pandas' missing
  value). \<open>Fin a\<close> holds the real number the value denotes, \<open>Fin 0\<close> being the positive
  zero. Arithmetic follows IEEE 754, which is what pandas and numpy compute with: nothing
  raises, a division by zero gives an infinity or NaN, and the exact result of an
  operation is rounded to the nearest binary64 number.
\<close>

datatype float64 = Fin real | NegZero | PInf | NInf | NaN

fun isna :: "float64 \<Rightarrow> bool" where
  "isna NaN = True"
| "isna _ = False"

fun isfinite :: "float64 \<Rightarrow> bool" where
  "isfinite (Fin _) = True"
| "isfinite NegZero = True"
| "isfinite _ = False"

fun isinf :: "float64 \<Rightarrow> bool" where
  "isinf PInf = True"
| "isinf NInf = True"
| "isinf _ = False"

text \<open>The number a finite value denotes (and 0 for the others).\<close>

fun fval :: "float64 \<Rightarrow> real" where
  "fval (Fin a) = a"
| "fval _ = 0"

definition iszero :: "float64 \<Rightarrow> bool" where
  "iszero x \<longleftrightarrow> isfinite x \<and> fval x = 0"

fun signbit :: "float64 \<Rightarrow> bool" where
  "signbit (Fin a) = (a < 0)"
| "signbit NegZero = True"
| "signbit PInf = False"
| "signbit NInf = True"
| "signbit NaN = False"

definition zero_of :: "bool \<Rightarrow> float64" where
  "zero_of negative = (if negative then NegZero else Fin 0)"

definition inf_of :: "bool \<Rightarrow> float64" where
  "inf_of negative = (if negative then NInf else PInf)"

text \<open>
  The nearest integer, a tie going to the even neighbour: numpy's \<^verbatim>\<open>rint\<close>, and the
  rounding of a significand.
\<close>

definition rint :: "real \<Rightarrow> int" where
  "rint x =
     (let f = \<lfloor>x\<rfloor>; d = x - of_int f
      in if d < 1 / 2 then f
         else if 1 / 2 < d then f + 1
         else if even f then f else f + 1)"

text \<open>
  The binary exponent of a positive number among the exponents of binary64: the \<open>e\<close>
  with \<open>2\<^sup>e \<le> x < 2\<^sup>e\<^sup>+\<^sup>1\<close>, but at least \<open>-1022\<close> (below \<open>2\<^sup>-\<^sup>1\<^sup>0\<^sup>2\<^sup>2\<close> the numbers are
  subnormal) and at most 1023. It is found by halving a number from 1 on and doubling a
  number below 1.
\<close>

fun halvings :: "nat \<Rightarrow> real \<Rightarrow> nat" where
  "halvings 0 x = 0"
| "halvings (Suc n) x = (if 2 \<le> x then Suc (halvings n (x / 2)) else 0)"

fun doublings :: "nat \<Rightarrow> real \<Rightarrow> nat" where
  "doublings 0 x = 0"
| "doublings (Suc n) x = (if x < 1 then Suc (doublings n (2 * x)) else 0)"

definition exponent :: "real \<Rightarrow> int" where
  "exponent x = (if 1 \<le> x then int (halvings 1023 x) else - int (doublings 1022 x))"

text \<open>
  The binary64 numbers of the binade of \<open>r\<close> are the multiples of \<open>ulp r\<close> (53 bits of
  significand); \<open>nearest64 r\<close> is the multiple nearest to \<open>r\<close>, a tie going to the even
  significand.
\<close>

definition ulp :: "real \<Rightarrow> real" where
  "ulp r = 2 powi (exponent \<bar>r\<bar> - 52)"

definition nearest64 :: "real \<Rightarrow> real" where
  "nearest64 r = of_int (rint (r / ulp r)) * ulp r"

text \<open>
  The rounding of an exact result to binary64. A result of magnitude at most \<open>2\<^sup>-\<^sup>1\<^sup>0\<^sup>7\<^sup>5\<close>,
  half the least subnormal number, underflows to the zero of its sign; one of magnitude
  at least \<open>2\<^sup>1\<^sup>0\<^sup>2\<^sup>4 - 2\<^sup>9\<^sup>7\<^sup>0\<close>, half a step beyond the greatest number, overflows to
  the infinity of its sign.
\<close>

definition round64 :: "real \<Rightarrow> float64" where
  "round64 r =
     (if r = 0 then Fin 0
      else if \<bar>r\<bar> \<le> 1 / 2 ^ 1075 then zero_of (r < 0)
      else if 2 ^ 1024 - 2 ^ 970 \<le> \<bar>r\<bar> then inf_of (r < 0)
      else Fin (nearest64 r))"

text \<open>\<^verbatim>\<open>x / y\<close> on float64 values.\<close>

definition fdiv :: "float64 \<Rightarrow> float64 \<Rightarrow> float64" where
  "fdiv x y =
     (if isna x \<or> isna y then NaN
      else if (isinf x \<and> isinf y) \<or> (iszero x \<and> iszero y) then NaN
      else if isinf x \<or> iszero y then inf_of (signbit x \<noteq> signbit y)
      else if iszero x \<or> isinf y then zero_of (signbit x \<noteq> signbit y)
      else round64 (fval x / fval y))"

text \<open>\<^verbatim>\<open>x * y\<close> on float64 values.\<close>

definition fmul :: "float64 \<Rightarrow> float64 \<Rightarrow> float64" where
  "fmul x y =
     (if isna x \<or> isna y then NaN
      else if (isinf x \<and> iszero y) \<or> (iszero x \<and> isinf y) then NaN
      else if isinf x \<or> isinf y then inf_of (signbit x \<noteq> signbit y)
      else if iszero x \<or> iszero y then zero_of (signbit x \<noteq> signbit y)
      else round64 (fval x * fval y))"

text \<open>
  \<^verbatim>\<open>x + y\<close> and \<^verbatim>\<open>x - y\<close> on float64 values. An exact result of zero is the positive
  zero, except for \<open>-0 + -0\<close> and \<open>-0 - +0\<close>.
\<close>

definition fadd :: "float64 \<Rightarrow> float64 \<Rightarrow> float64" where
  "fadd x y =
     (if isna x \<or> isna y then NaN
      else if isinf x \<and> isinf y then (if signbit x = signbit y then x else NaN)
      else if isinf x then x
      else if isinf y then y
      else if fval x + fval y = 0
           then (if x = NegZero \<and> y = NegZero then NegZero else Fin 0)
      else round64 (fval x + fval y))"

definition fsub :: "float64 \<Rightarrow> float64 \<Rightarrow> float64" where
  "fsub x y =
     (if isna x \<or> isna y then NaN
      else if isinf x \<and> isinf y then (if signbit x = signbit y then NaN else x)
      else if isinf x then x
      else if isinf y then inf_of (\<not> signbit y)
      else if fval x - fval y = 0
           then (if x = NegZero \<and> y \<noteq> NegZero then NegZero else Fin 0)
      else round64 (fval x - fval y))"

fun fabs :: "float64 \<Rightarrow> float64" where
  "fabs (Fin a) = Fin \<bar>a\<bar>"
| "fabs NegZero = Fin 0"
| "fabs PInf = PInf"
| "fabs NInf = PInf"
| "fabs NaN = NaN"

text \<open>\<^verbatim>\<open>np.sqrt\<close>: the rounded square root; a negative number gives NaN.\<close>

fun fsqrt :: "float64 \<Rightarrow> float64" where
  "fsqrt (Fin a) = (if a < 0 then NaN else if a = 0 then Fin 0 else round64 (sqrt a))"
| "fsqrt NegZero = NegZero"
| "fsqrt PInf = PInf"
| "fsqrt NInf = NaN"
| "fsqrt NaN = NaN"

text \<open>\<^verbatim>\<open>np.rint\<close> on a float64 value; a result of zero keeps the sign of its argument.\<close>

fun frint :: "float64 \<Rightarrow> float64" where
  "frint (Fin a) = (if rint a = 0 then zero_of (a < 0) else Fin (of_int (rint a)))"
| "frint x = x"

text \<open>
  \<^verbatim>\<open>round(s, 2)\<close> on a Series is \<^verbatim>\<open>Series.round(2)\<close>, numpy's \<^verbatim>\<open>around\<close> with two
  decimals: the float64 product with 100, \<^verbatim>\<open>rint\<close>, the float64 quotient by 100.
\<close>

definition fround2 :: "float64 \<Rightarrow> float64" where
  "fround2 x = fdiv (frint (fmul x (Fin 100))) (Fin 100)"

subsection \<open>Timestamps\<close>

text \<open>
  A calendar day. The order of timestamps is the order of the triples
  (year, month, day). pandas' nanosecond timestamps cover the days from 1677-09-22 to
  2262-04-11; a range of dates that leaves them raises.
\<close>

datatype timestamp = Timestamp (ts_year: int) (ts_month: int) (ts_day: int)

definition ts_key :: "timestamp \<Rightarrow> int \<times> int \<times> int" where
  "ts_key d = (ts_year d, ts_month d, ts_day d)"

definition ts_in_bounds :: "timestamp \<Rightarrow> bool" where
  "ts_in_bounds d \<longleftrightarrow> (1677, 9, 22) \<le> ts_key d \<and> ts_key d \<le> (2262, 4, 11)"

text \<open>
  The exceptions of a run. \<open>ReadError\<close> stands for every exception of \<^verbatim>\<open>pd.read_csv\<close>
  other than \<^verbatim>\<open>FileNotFoundError\<close> (a directory at the path, no permission, an empty
  file, bytes that do not decode), with the name of its class.
\<close>

datatype error =
    FileNotFoundError
  | ReadError string
  | DateParseError
  | OutOfBoundsDatetime
  | ValueError string
  | FitError string

subsection \<open>Ingestion: \<^verbatim>\<open>load_and_clean_data\<close>\<close>

text \<open>
  A raw row is the four cells of a line, by position: the year and the month as
  integers, the volume and the value as the text of their cells. What \<^verbatim>\<open>pd.read_csv\<close>
  does at a path is a parameter: it returns the table or it raises.
\<close>

type_synonym raw_row = "int \<times> int \<times> string \<times> string"

definition read_csv :: "(string \<Rightarrow> error + raw_row list) \<Rightarrow> string \<Rightarrow> error + raw_row list" where
  "read_csv fs filepath = fs filepath"

definition year_month :: "raw_row \<Rightarrow> int \<times> int" where
  "year_month raw = (case raw of (y, m, vol, val) \<Rightarrow> (y, m))"

text \<open>
  \<^verbatim>\<open>pd.to_numeric(..., errors='coerce')\<close>: the number a cell's text denotes, NaN
  when it denotes none. The parser of number texts is a parameter.
\<close>

definition to_numeric :: "(string \<Rightarrow> float64 option) \<Rightarrow> string \<Rightarrow> float64" where
  "to_numeric parse s = (case parse s of None \<Rightarrow> NaN | Some x \<Rightarrow> x)"

record df_row =
  Date :: timestamp
  Year :: int
  Month :: int
  TransactionVolume_Cr :: float64
  TransactionValue_RsCr :: float64

text \<open>\<^verbatim>\<open>df.dropna()\<close>: a row stays when none of its columns is missing.\<close>

definition dropna :: "df_row list \<Rightarrow> df_row list" where
  "dropna df =
     filter (\<lambda>r. \<not> isna (TransactionVolume_Cr r) \<and> \<not> isna (TransactionValue_RsCr r)) df"

text \<open>
  Lines 35 to 39 on one row: the positional columns renamed, the date as index, the two
  numeric columns coerced.
\<close>

definition clean_row :: "(string \<Rightarrow> float64 option) \<Rightarrow> raw_row \<Rightarrow> timestamp \<Rightarrow> df_row" where
  "clean_row parse raw d =
     (case raw of (y, m, vol, val) \<Rightarrow>
        \<lparr>Date = d, Year = y, Month = m,
         TransactionVolume_Cr = to_numeric parse vol,
         TransactionValue_RsCr = to_numeric parse val\<rparr>)"

text \<open>
  Line 36 glues year, month and \<^verbatim>\<open>-01\<close> into a text and hands the column of texts to
  \<^verbatim>\<open>pd.to_datetime\<close> with its default \<^verbatim>\<open>errors='raise'\<close>. The text of a row is fixed by
  its (year, month) pair, so the parser is taken on the column of pairs. It is a
  parameter: which texts pandas reads as a date, and as which date, depends on the other
  texts of the column and on the version. Given the column, \<open>to_datetime\<close> raises, or it
  gives every row the date it reads from the row's text.

  The result of the function is \<open>Inr None\<close> when \<^verbatim>\<open>FileNotFoundError\<close> is caught (the
  message is printed and \<^verbatim>\<open>None\<close> returned), \<open>Inl e\<close> when the exception \<open>e\<close> leaves the
  function, and \<open>Inr (Some df)\<close> with the cleaned frame otherwise.
\<close>

definition load_and_clean_data ::
  "(string \<Rightarrow> float64 option) \<Rightarrow> ((int \<times> int) list \<Rightarrow> error + (int \<times> int \<Rightarrow> timestamp)) \<Rightarrow>
   (string \<Rightarrow> error + raw_row list) \<Rightarrow> string \<Rightarrow> error + df_row list option"
where
  "load_and_clean_data parse to_datetime fs filepath =
     (case read_csv fs filepath of
        Inl e \<Rightarrow> (if e = FileNotFoundError then Inr None else Inl e)
      | Inr rows \<Rightarrow>
          (case to_datetime (map year_month rows) of
             Inl e \<Rightarrow> Inl e
           | Inr date_of \<Rightarrow>
               Inr (Some (dropna
                 (map (\<lambda>raw. clean_row parse raw (date_of (year_month raw))) rows)))))"

subsection \<open>Feature derivation: \<^verbatim>\<open>create_features\<close>\<close>

record featured_row = df_row +
  AvgTransactionValue_Rs :: float64
  YoY_Volume_Growth_pct :: float64

text \<open>\<^verbatim>\<open>Series.shift(k)\<close> for \<open>k \<ge> 0\<close>: every value moves \<open>k\<close> places down, NaN fills the top.\<close>

definition shift :: "nat \<Rightarrow> float64 list \<Rightarrow> float64 list" where
  "shift k xs = replicate (min k (length xs)) NaN @ take (length xs - k) xs"

text \<open>
  \<^verbatim>\<open>fill_method='pad'\<close>, the default of \<^verbatim>\<open>pct_change\<close>: a missing value takes the
  last value before it that is not missing.
\<close>

fun ffill_from :: "float64 \<Rightarrow> float64 list \<Rightarrow> float64 list" where
  "ffill_from prev [] = []"
| "ffill_from prev (x # xs) =
     (if isna x then prev # ffill_from prev xs else x # ffill_from x xs)"

definition ffill :: "float64 list \<Rightarrow> float64 list" where
  "ffill xs = ffill_from NaN xs"

text \<open>\<^verbatim>\<open>Series.pct_change(k)\<close>: \<^verbatim>\<open>data / data.shift(k) - 1\<close> on the padded column.\<close>

definition pct_change :: "nat \<Rightarrow> float64 list \<Rightarrow> float64 list" where
  "pct_change k xs =
     (let data = ffill xs
      in map2 (\<lambda>x s. fsub (fdiv x s) (Fin 1)) data (shift k data))"

definition create_features :: "df_row list \<Rightarrow> featured_row list" where
  "create_features df =
     (let avg = map (\<lambda>r. fround2 (fdiv (TransactionValue_RsCr r) (TransactionVolume_Cr r))) df;
          yoy = map (\<lambda>x. fround2 (fmul x (Fin 100))) (pct_change 12 (map TransactionVolume_Cr df))
      in map (\<lambda>(r, a, g). df_row.extend r (featured_row.fields a g)) (zip df (zip avg yoy)))"


subsection \<open>The forecasting library\<close>

text \<open>
  Prophet's numerical core is a parameter: \<open>optimise\<close> turns the observations into
  fitted parameters or fails, and \<open>yhat\<close> is the point forecast of fitted parameters
  at a date. What \<^verbatim>\<open>Prophet.fit\<close>, \<^verbatim>\<open>Prophet.predict\<close> and
  \<^verbatim>\<open>Prophet.make_future_dataframe\<close> do around the core is written out. The
  uncertainty bounds of a forecast row are left out.
\<close>

record 'p prophet_core =
  optimise :: "(timestamp \<times> float64) list \<Rightarrow> error + 'p"
  yhat :: "'p \<Rightarrow> timestamp \<Rightarrow> float64"

record 'p prophet =
  history_dates :: "timestamp list"
  params :: 'p

text \<open>
  \<^verbatim>\<open>fit\<close> keeps the rows whose \<^verbatim>\<open>y\<close> is not missing and refuses fewer than two of
  them; it stores the distinct dates of the frame in ascending order.
\<close>

definition prophet_fit ::
  "'p prophet_core \<Rightarrow> (timestamp \<times> float64) list \<Rightarrow> error + 'p prophet" where
  "prophet_fit C df =
     (let history = filter (\<lambda>(d, y). \<not> isna y) df
      in if length history < 2
         then Inl (ValueError ''Dataframe has less than 2 non-NaN rows.'')
         else (case optimise C history of
                 Inl e \<Rightarrow> Inl e
               | Inr p \<Rightarrow> Inr \<lparr>history_dates = sort_key ts_key (remdups (map fst df)),
                               params = p\<rparr>))"

text \<open>
  \<^verbatim>\<open>predict\<close> refuses an empty frame, sorts the requested dates and returns one row
  per date.
\<close>

definition prophet_predict ::
  "'p prophet_core \<Rightarrow> 'p prophet \<Rightarrow> timestamp list \<Rightarrow> error + (timestamp \<times> float64) list" where
  "prophet_predict C m ds =
     (if ds = [] then Inl (ValueError ''Dataframe has no rows.'')
      else Inr (map (\<lambda>d. (d, yhat C (params m) d)) (sort_key ts_key ds)))"

text \<open>The month start after a day, the step of the frequency \<^verbatim>\<open>MS\<close>.\<close>

definition next_month_start :: "timestamp \<Rightarrow> timestamp" where
  "next_month_start d =
     (if ts_month d = 12 then Timestamp (ts_year d + 1) 1 1
      else Timestamp (ts_year d) (ts_month d + 1) 1)"

fun month_starts :: "timestamp \<Rightarrow> nat \<Rightarrow> timestamp list" where
  "month_starts d 0 = []"
| "month_starts d (Suc n) = d # month_starts (next_month_start d) n"

text \<open>
  \<^verbatim>\<open>pd.date_range(start, periods=n, freq='MS')\<close>: \<open>n\<close> month starts, the first one the
  start itself when it is a month start and the next month start otherwise. A day that
  cannot be represented raises.
\<close>

definition date_range_MS :: "timestamp \<Rightarrow> nat \<Rightarrow> error + timestamp list" where
  "date_range_MS start n =
     (let first = (if ts_day start = 1 then start else next_month_start start);
          dates = month_starts first n
      in if list_all ts_in_bounds dates then Inr dates else Inl OutOfBoundsDatetime)"

text \<open>
  \<^verbatim>\<open>make_future_dataframe(periods, freq='MS')\<close>: a range of \<open>periods + 1\<close> dates from
  the last date of the history, the dates after that last date, the first \<open>periods\<close> of
  them, appended to the history.
\<close>

definition make_future_dataframe :: "'p prophet \<Rightarrow> nat \<Rightarrow> error + timestamp list" where
  "make_future_dataframe m periods =
     (case history_dates m of
        [] \<Rightarrow> Inl (ValueError ''Model has not been fit.'')
      | h # hs \<Rightarrow>
          (let last_date = last (sort_key ts_key (h # hs))
           in case date_range_MS last_date (periods + 1) of
                Inl e \<Rightarrow> Inl e
              | Inr dates \<Rightarrow>
                  Inr (history_dates m @
                       take periods (filter (\<lambda>d. ts_key last_date < ts_key d) dates))))"


subsection \<open>The scorer\<close>

text \<open>
  scikit-learn's regression metrics validate their input first: the two arrays must have
  the same length, only finite values and at least one sample, or \<^verbatim>\<open>ValueError\<close> is
  raised.
\<close>

definition check_targets :: "float64 list \<Rightarrow> float64 list \<Rightarrow> error + unit" where
  "check_targets y_true y_pred =
     (if length y_true \<noteq> length y_pred
      then Inl (ValueError ''Found input variables with inconsistent numbers of samples'')
      else if \<not> (list_all isfinite y_true \<and> list_all isfinite y_pred)
      then Inl (ValueError ''Input contains NaN or infinity'')
      else if y_true = [] then Inl (ValueError ''Found array with 0 sample(s)'')
      else Inr ())"

text \<open>
  Both metrics are numpy means of an array of float64 errors: the sum of the array,
  divided by the number of its entries. The order in which numpy adds the entries up is
  not fixed by the source, so the summation \<open>S\<close> is a parameter. The mean absolute error
  averages \<^verbatim>\<open>np.abs(y_pred - y_true)\<close>, the mean squared error
  \<^verbatim>\<open>(y_true - y_pred) ** 2\<close>.
\<close>

definition mean ::  "(float64 list \<Rightarrow> float64) \<Rightarrow> float64 list \<Rightarrow> float64" where
  "mean S xs = fdiv (S xs) (Fin (real (length xs)))"

definition mean_absolute_error ::
  "(float64 list \<Rightarrow> float64) \<Rightarrow> float64 list \<Rightarrow> float64 list \<Rightarrow> error + float64" where
  "mean_absolute_error S y_true y_pred =
     (case check_targets y_true y_pred of
        Inl e \<Rightarrow> Inl e
      | Inr _ \<Rightarrow> Inr (mean S (map2 (\<lambda>t p. fabs (fsub p t)) y_true y_pred)))"

definition mean_squared_error ::
  "(float64 list \<Rightarrow> float64) \<Rightarrow> float64 list \<Rightarrow> float64 list \<Rightarrow> error + float64" where
  "mean_squared_error S y_true y_pred =
     (case check_targets y_true y_pred of
        Inl e \<Rightarrow> Inl e
      | Inr _ \<Rightarrow> Inr (mean S (map2 (\<lambda>t p. fmul (fsub t p) (fsub t p)) y_true y_pred)))"

subsection \<open>Evaluation and forecast: \<^verbatim>\<open>forecast_transactions\<close>\<close>

text \<open>\<^verbatim>\<open>.iloc[:-k]\<close> and \<^verbatim>\<open>.iloc[-k:]\<close> for \<open>k > 0\<close>; a frame shorter than \<open>k\<close> gives
  the empty frame and the whole frame.\<close>

definition iloc_upto_neg :: "nat \<Rightarrow> 'a list \<Rightarrow> 'a list" where
  "iloc_upto_neg k xs = take (length xs - k) xs"

definition iloc_from_neg :: "nat \<Rightarrow> 'a list \<Rightarrow> 'a list" where
  "iloc_from_neg k xs = drop (length xs - k) xs"

text \<open>Line 105: the index and the volume column, renamed \<^verbatim>\<open>ds\<close> and \<^verbatim>\<open>y\<close>.\<close>

definition prophet_df :: "featured_row list \<Rightarrow> (timestamp \<times> float64) list" where
  "prophet_df df = map (\<lambda>r. (Date r, TransactionVolume_Cr r)) df"

text \<open>Lines 108 and 109.\<close>

definition train :: "featured_row list \<Rightarrow> (timestamp \<times> float64) list" where
  "train df = iloc_upto_neg 12 (prophet_df df)"

definition test :: "featured_row list \<Rightarrow> (timestamp \<times> float64) list" where
  "test df = iloc_from_neg 12 (prophet_df df)"

text \<open>Lines 112 to 116: the evaluation model and its forecast for the holdout.\<close>

definition test_forecast ::
  "'p prophet_core \<Rightarrow> featured_row list \<Rightarrow> error + (timestamp \<times> float64) list" where
  "test_forecast C df =
     (case prophet_fit C (train df) of
        Inl e \<Rightarrow> Inl e
      | Inr model \<Rightarrow> prophet_predict C model (map fst (test df)))"

text \<open>Lines 119 and 120: the two printed metrics, MAE first, RMSE second.\<close>

definition score ::
  "(float64 list \<Rightarrow> float64) \<Rightarrow> float64 list \<Rightarrow> float64 list \<Rightarrow> error + (float64 \<times> float64)" where
  "score S y_true y_pred =
     (case mean_absolute_error S y_true y_pred of
        Inl e \<Rightarrow> Inl e
      | Inr mae \<Rightarrow>
          (case mean_squared_error S y_true y_pred of
             Inl e \<Rightarrow> Inl e
           | Inr mse \<Rightarrow> Inr (mae, fsqrt mse)))"

definition evaluate ::
  "(float64 list \<Rightarrow> float64) \<Rightarrow> 'p prophet_core \<Rightarrow> featured_row list \<Rightarrow>
   error + (float64 \<times> float64)" where
  "evaluate S C df =
     (case test_forecast C df of
        Inl e \<Rightarrow> Inl e
      | Inr fc \<Rightarrow> score S (map snd (test df)) (map snd fc))"

text \<open>Lines 126 to 130: the model refitted on the whole frame, and its forecast.\<close>

definition final_forecast ::
  "'p prophet_core \<Rightarrow> featured_row list \<Rightarrow> error + (timestamp \<times> float64) list" where
  "final_forecast C df =
     (case prophet_fit C (prophet_df df) of
        Inl e \<Rightarrow> Inl e
      | Inr full_model \<Rightarrow>
          (case make_future_dataframe full_model 24 of
             Inl e \<Rightarrow> Inl e
           | Inr future \<Rightarrow> prophet_predict C full_model future))"

text \<open>
  The function: the evaluation first, then the final forecast, which is returned. The
  printed metrics are kept beside it.
\<close>

definition forecast_transactions ::
  "(float64 list \<Rightarrow> float64) \<Rightarrow> 'p prophet_core \<Rightarrow> featured_row list \<Rightarrow>
   error + ((float64 \<times> float64) \<times> (timestamp \<times> float64) list)" where
  "forecast_transactions S C df =
     (case evaluate S C df of
        Inl e \<Rightarrow> Inl e
      | Inr metrics \<Rightarrow>
          (case final_forecast C df of
             Inl e \<Rightarrow> Inl e
           | Inr fc \<Rightarrow> Inr (metrics, fc)))"

subsection \<open>Notions used in the statements\<close>

text \<open>
  A summation of numpy adds the entries of the array up, two partial sums at a time, in
  an order of its own (in blocks, pairwise, with several accumulators): its result is
  the value of some tree of float64 additions over the entries.
\<close>

inductive sums_to :: "float64 multiset \<Rightarrow> float64 \<Rightarrow> bool" where
  entry: "sums_to {#x#} x"
| add: "sums_to A a \<Longrightarrow> sums_to B b \<Longrightarrow> sums_to (A + B) (fadd a b)"

definition numpy_sum :: "(float64 list \<Rightarrow> float64) \<Rightarrow> bool" where
  "numpy_sum S \<longleftrightarrow> (\<forall>xs. xs \<noteq> [] \<longrightarrow> sums_to (mset xs) (S xs))"

text \<open>The summation from left to right.\<close>

fun sequential_sum :: "float64 list \<Rightarrow> float64" where
  "sequential_sum [] = Fin 0"
| "sequential_sum (x # xs) = foldl fadd x xs"

text \<open>A value that is not missing and has no sign: from the positive zero to \<open>+\<infinity>\<close>.\<close>

definition nonneg :: "float64 \<Rightarrow> bool" where
  "nonneg x \<longleftrightarrow> \<not> isna x \<and> \<not> signbit x"

text \<open>
  A (year, month) pair is valid when it names a month of the calendar in a year of four
  digits every day of which pandas can represent. A parser of dates reads valid dates
  when it accepts every column of valid pairs and reads each of its texts, year, month
  and \<^verbatim>\<open>01\<close>, as the first day of that month.
\<close>

definition valid_year_month :: "int \<times> int \<Rightarrow> bool" where
  "valid_year_month p \<longleftrightarrow> 1 \<le> snd p \<and> snd p \<le> 12 \<and> 1678 \<le> fst p \<and> fst p \<le> 2261"

definition valid_row :: "raw_row \<Rightarrow> bool" where
  "valid_row raw = valid_year_month (year_month raw)"

definition first_of_month :: "int \<times> int \<Rightarrow> timestamp" where
  "first_of_month p = Timestamp (fst p) (snd p) 1"

definition reads_valid_dates ::
  "((int \<times> int) list \<Rightarrow> error + (int \<times> int \<Rightarrow> timestamp)) \<Rightarrow> bool" where
  "reads_valid_dates to_datetime \<longleftrightarrow>
     (\<forall>col. list_all valid_year_month col \<longrightarrow>
        (\<exists>date_of. to_datetime col = Inr date_of \<and>
                   (\<forall>p \<in> set col. date_of p = first_of_month p)))"

text \<open>Both numeric cells of a raw row coerce to a number that is not missing.\<close>

definition coercible :: "(string \<Rightarrow> float64 option) \<Rightarrow> raw_row \<Rightarrow> bool" where
  "coercible parse raw =
     (case raw of (y, m, vol, val) \<Rightarrow>
        \<not> isna (to_numeric parse vol) \<and> \<not> isna (to_numeric parse val))"

text \<open>The cleaned row of a raw row, its period the date read for its (year, month).\<close>

definition cleaned_row ::
  "(string \<Rightarrow> float64 option) \<Rightarrow> (int \<times> int \<Rightarrow> timestamp) \<Rightarrow> raw_row \<Rightarrow> df_row" where
  "cleaned_row parse date_of raw = clean_row parse raw (date_of (year_month raw))"

text \<open>
  Data for the examples: a parser that knows a few number texts, a parser of dates that
  accepts the columns of valid pairs only, and a system with one file.
\<close>

definition example_parse :: "string \<Rightarrow> float64 option" where
  "example_parse =
     map_of [(''0'', Fin 0), (''4'', Fin 4), (''5'', Fin 5), (''6'', Fin 6), (''10'', Fin 10),
             (''12'', Fin 12), (''23'', Fin 23), (''40'', Fin 40)]"

definition strict_to_datetime :: "(int \<times> int) list \<Rightarrow> error + (int \<times> int \<Rightarrow> timestamp)" where
  "strict_to_datetime col =
     (if list_all valid_year_month col then Inr first_of_month else Inl DateParseError)"

definition example_files :: "raw_row list \<Rightarrow> string \<Rightarrow> error + raw_row list" where
  "example_files rows filepath =
     (if filepath = ''upi_raw_data.csv'' then Inr rows
      else if filepath = ''reports'' then Inl (ReadError ''IsADirectoryError'')
      else Inl FileNotFoundError)"

text \<open>
  A clean frame of consecutive months from January 2020 with the given volumes, the
  value twice the volume.
\<close>

definition example_series :: "real list \<Rightarrow> df_row list" where
  "example_series vs =
     map (\<lambda>(i, v). \<lparr>Date = Timestamp (2020 + int (i div 12)) (1 + int (i mod 12)) 1,
                    Year = 2020 + int (i div 12), Month = 1 + int (i mod 12),
                    TransactionVolume_Cr = Fin v, TransactionValue_RsCr = Fin (2 * v)\<rparr>)
         (enumerate 0 vs)"

text \<open>A forecasting core for the examples: it forecasts the mean of the observations.\<close>

definition example_core :: "real prophet_core" where
  "example_core =
     \<lparr>optimise = (\<lambda>history. if list_all isfinite (map snd history)
                            then Inr (sum_list (map (fval \<circ> snd) history) / real (length history))
                            else Inl (FitError ''Found infinity in column y.'')),
      yhat = (\<lambda>p d. Fin p)\<rparr>"

text \<open>The errors of the scorer's example: eleven of 1 and one of 5.\<close>

definition known_errors :: "real list" where
  "known_errors = [1, 1, 1, 1, 1, 1, 1, 1, 1, 1, 1, 5]"

text \<open>An error whose square is below the least positive binary64 number.\<close>

definition tiny_error :: real where
  "tiny_error = 1 / 2 ^ 600"

text \<open>
  Every date of the list is the month start that follows the date before it.
\<close>

definition monthly_steps :: "timestamp list \<Rightarrow> bool" where
  "monthly_steps ds = successively (\<lambda>a b. b = next_month_start a) ds"

text \<open>The first day of a month of the calendar.\<close>

definition first_of_month_date :: "timestamp \<Rightarrow> bool" where
  "first_of_month_date d \<longleftrightarrow> ts_day d = 1 \<and> 1 \<le> ts_month d \<and> ts_month d \<le> 12"

section \<open>Properties\<close>


subsection \<open>Rounding to binary64\<close>

lemma halvings_numeral:
  "halvings (numeral k) x = (if 2 \<le> x then Suc (halvings (pred_numeral k) (x / 2)) else 0)"
  by (simp add: numeral_eq_Suc)

lemma doublings_numeral:
  "doublings (numeral k) x = (if x < 1 then Suc (doublings (pred_numeral k) (2 * x)) else 0)"
  by (simp add: numeral_eq_Suc)

lemmas float_eval = nearest64_def ulp_def exponent_def halvings_numeral doublings_numeral
  rint_def Let_def round64_def zero_of_def inf_of_def


lemma rint_close: "\<bar>of_int (rint x) - x\<bar> \<le> 1 / 2"
proof -
  have "of_int \<lfloor>x\<rfloor> \<le> x" and "x < of_int \<lfloor>x\<rfloor> + 1"
    by linarith+
  then show ?thesis
    by (auto simp: rint_def Let_def)
qed

lemma rint_of_int [simp]: "rint (of_int k) = k"
  by (simp add: rint_def)

lemma rint_zero [simp]: "rint 0 = 0"
  by (simp add: rint_def)

lemma rint_nonneg: "0 \<le> x \<Longrightarrow> 0 \<le> rint x"
  by (auto simp: rint_def Let_def)

lemma rint_nonpos: "x \<le> 0 \<Longrightarrow> rint x \<le> 0"
proof -
  assume x: "x \<le> 0"
  have f: "\<lfloor>x\<rfloor> \<le> 0" using x by linarith
  show ?thesis
  proof (cases "\<lfloor>x\<rfloor> = 0")
    case True
    then have "x = 0" using x by linarith
    then show ?thesis by (simp add: rint_def)
  next
    case False
    with f have "\<lfloor>x\<rfloor> + 1 \<le> 0" by linarith
    then show ?thesis using f by (auto simp: rint_def Let_def)
  qed
qed

lemma halvings_lower: "1 \<le> x \<Longrightarrow> 2 ^ halvings n x \<le> x"
proof (induction n arbitrary: x)
  case 0
  then show ?case by simp
next
  case (Suc n)
  show ?case
  proof (cases "2 \<le> x")
    case True
    then have "2 ^ halvings n (x / 2) \<le> x / 2"
      by (intro Suc.IH) simp
    with True show ?thesis by simp
  next
    case False
    with Suc.prems show ?thesis by simp
  qed
qed

lemma doublings_le: "doublings n x \<le> n"
  by (induction n arbitrary: x) auto

lemma doublings_lower: "0 < x \<Longrightarrow> x < 1 \<Longrightarrow> 1 / 2 ^ doublings n x \<le> max x (1 / 2 ^ n)"
proof (induction n arbitrary: x)
  case 0
  then show ?case by simp
next
  case (Suc n)
  show ?case
  proof (cases "2 * x < 1")
    case True
    have "1 / 2 ^ doublings n (2 * x) \<le> max (2 * x) (1 / 2 ^ n)"
      using Suc.prems True by (intro Suc.IH) simp_all
    then have "1 / 2 ^ doublings n (2 * x) / 2 \<le> max (2 * x) (1 / 2 ^ n) / 2"
      by simp
    also have "\<dots> = max x (1 / 2 ^ Suc n)"
      by (simp add: max_def field_simps)
    finally show ?thesis using Suc.prems by simp
  next
    case False
    then have "doublings n (2 * x) = 0"
      by (cases n) simp_all
    then have "1 / 2 ^ doublings (Suc n) x = (1 / 2 :: real)"
      using Suc.prems by simp
    moreover have "1 / 2 \<le> max x (1 / 2 ^ Suc n)"
      using False by simp
    ultimately show ?thesis by simp
  qed
qed

lemma exponent_ge: "- 1022 \<le> exponent x"
  using doublings_le [of 1022 x] by (simp add: exponent_def)

lemma exponent_lower:
  assumes "0 < x"
  shows "2 powi exponent x \<le> max x (1 / 2 ^ 1022)"
proof (cases "1 \<le> x")
  case True
  then have "2 ^ halvings 1023 x \<le> x" by (rule halvings_lower)
  with True show ?thesis by (simp add: exponent_def max_def)
next
  case False
  then have "1 / 2 ^ doublings 1022 x \<le> max x (1 / 2 ^ 1022)"
    using assms by (intro doublings_lower) simp_all
  with False show ?thesis
    by (simp add: exponent_def power_int_minus field_simps)
qed

lemma ulp_pos: "0 < ulp r"
  by (simp add: ulp_def zero_less_power_int)

lemma ulp_eq: "ulp r = 2 powi exponent \<bar>r\<bar> / 2 ^ 52"
  by (simp add: ulp_def power_int_diff)

lemma ulp_upper:
  assumes "r \<noteq> 0"
  shows "ulp r \<le> max \<bar>r\<bar> (1 / 2 ^ 1022) / 2 ^ 52"
  using exponent_lower [of "\<bar>r\<bar>"] assms
  by (simp add: ulp_eq divide_right_mono)

lemma nearest64_close_ulp: "\<bar>nearest64 r - r\<bar> \<le> ulp r / 2"
proof -
  have "\<bar>of_int (rint (r / ulp r)) - r / ulp r\<bar> \<le> 1 / 2"
    by (rule rint_close)
  then have "\<bar>of_int (rint (r / ulp r)) - r / ulp r\<bar> * ulp r \<le> 1 / 2 * ulp r"
    using ulp_pos [of r] by (intro mult_right_mono) simp_all
  moreover have "\<bar>of_int (rint (r / ulp r)) - r / ulp r\<bar> * ulp r = \<bar>nearest64 r - r\<bar>"
  proof -
    have "(of_int (rint (r / ulp r)) - r / ulp r) * ulp r = nearest64 r - r"
      using ulp_pos [of r] by (simp add: nearest64_def left_diff_distrib)
    then have "\<bar>nearest64 r - r\<bar> = \<bar>of_int (rint (r / ulp r)) - r / ulp r\<bar> * \<bar>ulp r\<bar>"
      by (simp only: abs_mult [symmetric])
    then show ?thesis using ulp_pos [of r] by simp
  qed
  ultimately show ?thesis by simp
qed

lemma nearest64_close: "\<bar>nearest64 r - r\<bar> \<le> \<bar>r\<bar> / 2 ^ 53 + 1 / 2 ^ 1075"
proof (cases "r = 0")
  case True
  then show ?thesis by (simp add: nearest64_def)
next
  case False
  have "\<bar>nearest64 r - r\<bar> \<le> ulp r / 2" by (rule nearest64_close_ulp)
  also have "\<dots> \<le> max \<bar>r\<bar> (1 / 2 ^ 1022) / 2 ^ 52 / 2"
    using ulp_upper [OF False] by simp
  also have "\<dots> \<le> \<bar>r\<bar> / 2 ^ 53 + 1 / 2 ^ 1075"
    by (simp add: max_def)
  finally show ?thesis .
qed

lemma nearest64_nonneg: "0 \<le> r \<Longrightarrow> 0 \<le> nearest64 r"
  using ulp_pos [of r] rint_nonneg [of "r / ulp r"] by (simp add: nearest64_def)

lemma nearest64_nonpos: "r \<le> 0 \<Longrightarrow> nearest64 r \<le> 0"
  using ulp_pos [of r] rint_nonpos [of "r / ulp r"]
  by (simp add: nearest64_def mult_le_0_iff divide_le_0_iff)


lemma pow2_less_cancel: "(2::real) powi a < 2 powi b \<Longrightarrow> a < b"
proof (rule ccontr)
  assume l: "(2::real) powi a < 2 powi b" and "\<not> a < b"
  then have "b \<le> a" by simp
  then have "(2::real) powi b \<le> 2 powi a"
    by (intro power_int_increasing) simp_all
  with l show False by simp
qed

lemma nearest64_representable:
  assumes m: "\<bar>m\<bar> < 2 ^ 53" and e: "- 1074 \<le> e"
  shows "nearest64 (of_int m * 2 powi e) = of_int m * 2 powi e"
proof (cases "m = 0")
  case True
  then show ?thesis by (simp add: nearest64_def)
next
  case False
  let ?x = "of_int m * (2::real) powi e"
  let ?E = "exponent \<bar>?x\<bar>"
  have p: "(0::real) < 2 powi e" by (simp add: zero_less_power_int)
  have x0: "0 < \<bar>?x\<bar>" using False p by simp
  have le: "?E - 52 \<le> e"
  proof (cases "?E = - 1022")
    case True
    with e show ?thesis by simp
  next
    case False
    with exponent_ge [of "\<bar>?x\<bar>"] have "- 1022 < ?E" by simp
    then have "(2::real) powi (- 1022) < 2 powi ?E"
      by (intro power_int_strict_increasing) simp_all
    then have "1 / 2 ^ 1022 < (2::real) powi ?E"
      by (simp add: power_int_minus field_simps)
    with exponent_lower [OF x0] have "2 powi ?E \<le> \<bar>?x\<bar>"
      by (simp add: max_def split: if_splits)
    also have "\<bar>?x\<bar> = \<bar>of_int m\<bar> * 2 powi e"
      using p by (simp add: abs_mult)
    also have "\<dots> < 2 ^ 53 * 2 powi e"
    proof -
      have "\<bar>real_of_int m\<bar> < 2 ^ 53"
        using m by (metis of_int_abs of_int_less_numeral_power_cancel_iff)
      then show ?thesis using p by (intro mult_strict_right_mono)
    qed
    also have "\<dots> = 2 powi (53 + e)"
      by (simp add: power_int_add)
    finally have "?E < 53 + e" by (rule pow2_less_cancel)
    then show ?thesis by simp
  qed
  define k where "k = nat (e - (?E - 52))"
  define u where "u = ulp ?x"
  have ek: "e = (?E - 52) + int k"
    using le by (simp add: k_def)
  have u: "u = 2 powi (?E - 52)"
    by (simp add: u_def ulp_def)
  have u0: "0 < u"
    unfolding u_def by (rule ulp_pos)
  have "(2::real) powi e = 2 powi (?E - 52) * 2 ^ k"
    by (subst ek) (simp add: power_int_add)
  then have pe: "(2::real) powi e = u * 2 ^ k"
    by (simp only: u)
  have x: "?x = of_int (m * 2 ^ k) * u"
    by (simp only: pe) simp
  have q: "?x / u = of_int (m * 2 ^ k)"
    unfolding x using u0 by simp
  have "nearest64 ?x = of_int (rint (?x / u)) * u"
    by (simp only: nearest64_def u_def)
  also have "\<dots> = of_int (m * 2 ^ k) * u"
    by (simp only: q rint_of_int)
  also have "\<dots> = ?x"
    by (simp only: x)
  finally show ?thesis .
qed

lemma nearest64_of_int:
  "\<bar>m\<bar> < 2 ^ 53 \<Longrightarrow> nearest64 (of_int m) = of_int m"
  using nearest64_representable [of m 0] by simp


subsection \<open>Accuracy of the float64 operations\<close>

lemma isfinite_zero_of [simp]: "isfinite (zero_of s)" "fval (zero_of s) = 0"
  by (simp_all add: zero_of_def)

lemma round64_close:
  assumes "\<bar>r\<bar> \<le> 2 ^ 1000"
  shows "isfinite (round64 r) \<and> \<bar>fval (round64 r) - r\<bar> \<le> (\<bar>r\<bar> + 1) / 2 ^ 53"
proof -
  have big: "\<not> 2 ^ 1024 - 2 ^ 970 \<le> \<bar>r\<bar>"
    using assms by simp
  have "\<bar>nearest64 r - r\<bar> \<le> \<bar>r\<bar> / 2 ^ 53 + 1 / 2 ^ 1075"
    by (rule nearest64_close)
  also have "\<dots> \<le> \<bar>r\<bar> / 2 ^ 53 + 1 / 2 ^ 53"
    by simp
  finally have n: "\<bar>nearest64 r - r\<bar> \<le> (\<bar>r\<bar> + 1) / 2 ^ 53"
    by (simp add: add_divide_distrib)
  have z: "\<bar>r\<bar> \<le> (\<bar>r\<bar> + 1) / 2 ^ 53" if "\<bar>r\<bar> \<le> 1 / 2 ^ 1075"
  proof -
    have "\<bar>r\<bar> \<le> 1 / 2 ^ 53" using that by simp
    then show ?thesis by (simp add: add_divide_distrib)
  qed
  show ?thesis
    using big n z by (simp add: round64_def)
qed

lemma fdiv_close:
  assumes "isfinite x" "isfinite y" "fval y \<noteq> 0" "\<bar>fval x / fval y\<bar> \<le> 2 ^ 1000"
  shows "isfinite (fdiv x y) \<and>
         \<bar>fval (fdiv x y) - fval x / fval y\<bar> \<le> (\<bar>fval x / fval y\<bar> + 1) / 2 ^ 53"
proof -
  have nx: "\<not> isna x" "\<not> isinf x" "\<not> isna y" "\<not> isinf y" "\<not> iszero y"
    using assms(1,2,3) by (cases x; cases y; simp add: iszero_def)+
  show ?thesis
  proof (cases "iszero x")
    case True
    then have "fval x = 0" by (simp add: iszero_def)
    with True nx show ?thesis by (simp add: fdiv_def)
  next
    case False
    with nx have "fdiv x y = round64 (fval x / fval y)" by (simp add: fdiv_def)
    with round64_close [OF assms(4)] show ?thesis by simp
  qed
qed

lemma fmul_close:
  assumes "isfinite x" "isfinite y" "\<bar>fval x * fval y\<bar> \<le> 2 ^ 1000"
  shows "isfinite (fmul x y) \<and>
         \<bar>fval (fmul x y) - fval x * fval y\<bar> \<le> (\<bar>fval x * fval y\<bar> + 1) / 2 ^ 53"
proof -
  have nx: "\<not> isna x" "\<not> isinf x" "\<not> isna y" "\<not> isinf y"
    using assms(1,2) by (cases x; cases y; simp)+
  show ?thesis
  proof (cases "iszero x \<or> iszero y")
    case True
    with nx show ?thesis by (auto simp: fmul_def iszero_def)
  next
    case False
    with nx have "fmul x y = round64 (fval x * fval y)" by (simp add: fmul_def)
    with round64_close [OF assms(3)] show ?thesis by simp
  qed
qed

lemma fsub_close:
  assumes "isfinite x" "isfinite y" "\<bar>fval x - fval y\<bar> \<le> 2 ^ 1000"
  shows "isfinite (fsub x y) \<and>
         \<bar>fval (fsub x y) - (fval x - fval y)\<bar> \<le> (\<bar>fval x - fval y\<bar> + 1) / 2 ^ 53"
proof -
  have nx: "\<not> isna x" "\<not> isinf x" "\<not> isna y" "\<not> isinf y"
    using assms(1,2) by (cases x; cases y; simp)+
  show ?thesis
  proof (cases "fval x - fval y = 0")
    case True
    with nx show ?thesis by (simp add: fsub_def)
  next
    case False
    with nx have "fsub x y = round64 (fval x - fval y)" by (simp add: fsub_def)
    with round64_close [OF assms(3)] show ?thesis by simp
  qed
qed

lemma frint_close:
  assumes "isfinite x"
  shows "isfinite (frint x) \<and> \<bar>fval (frint x) - fval x\<bar> \<le> 1 / 2"
proof (cases x)
  case (Fin a)
  have "\<bar>of_int (rint a) - a\<bar> \<le> 1 / 2" by (rule rint_close)
  then show ?thesis using Fin by (cases "rint a = 0") auto
qed (use assms in simp_all)

lemma fround2_close:
  assumes f: "isfinite x" and b: "\<bar>fval x\<bar> \<le> 2 ^ 990"
  shows "isfinite (fround2 x) \<and> \<bar>fval (fround2 x) - fval x\<bar> \<le> 1 / 200 + (\<bar>fval x\<bar> + 1) / 2 ^ 51"
proof -
  define v where "v = fval x"
  define q2 where "q2 = fmul x (Fin 100)"
  define q3 where "q3 = frint q2"
  define q4 where "q4 = fdiv q3 (Fin 100)"
  define w where "w = \<bar>v\<bar>"
  define u :: real where "u = 1 / 2 ^ 53"
  have w0: "0 \<le> w" by (simp add: w_def)
  have v: "w \<le> 2 ^ 990" using b by (simp add: v_def w_def)
  have "\<bar>fval x * fval (Fin 100)\<bar> \<le> 2 ^ 1000"
    using v by (simp add: v_def w_def abs_mult)
  from fmul_close [OF f _ this]
  have q2: "isfinite q2" "\<bar>fval q2 - v * 100\<bar> \<le> (w * 100 + 1) * u"
    by (simp_all add: q2_def v_def w_def u_def abs_mult)
  from frint_close [OF q2(1)]
  have q3: "isfinite q3" "\<bar>fval q3 - fval q2\<bar> \<le> 1 / 2"
    by (simp_all add: q3_def)
  have a3: "\<bar>fval q3 - v * 100\<bar> \<le> (w * 100 + 1) * u + 1 / 2"
    using q2(2) q3(2) by linarith
  have a3': "\<bar>fval q3\<bar> \<le> w * 100 + (w * 100 + 1) * u + 1 / 2"
    using a3 unfolding w_def by linarith
  have u1: "u \<le> 1" by (simp add: u_def)
  have u0: "0 \<le> u" by (simp add: u_def)
  have "(w * 100 + 1) * u \<le> w * 100 + 1"
    using mult_left_mono [OF u1, of "w * 100 + 1"] w0 by simp
  with a3' have a3'': "\<bar>fval q3\<bar> \<le> w * 200 + 2" by linarith
  have "\<bar>fval q3 / fval (Fin 100)\<bar> \<le> 2 ^ 1000"
    using a3'' v by simp
  from fdiv_close [OF q3(1) _ _ this]
  have q4: "isfinite q4" "\<bar>fval q4 - fval q3 / 100\<bar> \<le> (\<bar>fval q3\<bar> / 100 + 1) * u"
    by (simp_all add: q4_def u_def)
  have "(\<bar>fval q3\<bar> / 100 + 1) * u \<le> ((w * 200 + 2) / 100 + 1) * u"
    using a3'' by (intro mult_right_mono) (simp_all add: u_def)
  with q4(2) u0 have q4': "\<bar>fval q4 - fval q3 / 100\<bar> \<le> (w * 2 + 2) * u"
    by (simp add: algebra_simps)
  have "fval q4 - v = (fval q4 - fval q3 / 100) + (fval q3 - v * 100) / 100"
    by (simp add: field_simps)
  then have "\<bar>fval q4 - v\<bar> = \<bar>(fval q4 - fval q3 / 100) + (fval q3 - v * 100) / 100\<bar>"
    by (rule arg_cong)
  also have "\<dots> \<le> \<bar>fval q4 - fval q3 / 100\<bar> + \<bar>(fval q3 - v * 100) / 100\<bar>"
    by (rule abs_triangle_ineq)
  also have "\<dots> = \<bar>fval q4 - fval q3 / 100\<bar> + \<bar>fval q3 - v * 100\<bar> / 100"
    by simp
  also have "\<dots> \<le> (w * 2 + 2) * u + ((w * 100 + 1) * u + 1 / 2) / 100"
    by (intro add_mono divide_right_mono q4' a3) simp
  also have "\<dots> \<le> 1 / 200 + (w + 1) * (4 * u)"
    using w0 by (simp add: u_def field_simps)
  finally have "\<bar>fval q4 - v\<bar> \<le> 1 / 200 + (w + 1) / 2 ^ 51"
    by (simp add: u_def)
  with q4(1) show ?thesis
    by (simp add: fround2_def q4_def q3_def q2_def v_def w_def)
qed

subsection \<open>Feature derivation keeps the frame\<close>

lemma length_ffill_from [simp]: "length (ffill_from p xs) = length xs"
  by (induction xs arbitrary: p) auto

lemma length_ffill [simp]: "length (ffill xs) = length xs"
  by (simp add: ffill_def)

lemma length_shift [simp]: "length (shift k xs) = length xs"
  by (simp add: shift_def)

lemma length_pct_change [simp]: "length (pct_change k xs) = length xs"
  by (simp add: pct_change_def Let_def)

lemma length_create_features [simp]: "length (create_features df) = length df"
  by (simp add: create_features_def Let_def)

lemma truncate_extend: "df_row.truncate (df_row.extend r (featured_row.fields a g)) = r"
  by (simp add: df_row.truncate_def df_row.extend_def)

lemma truncate_create_features: "map df_row.truncate (create_features df) = df"
  by (simp add: create_features_def Let_def split_def comp_def truncate_extend)

text \<open>
  Claim C10. Feature derivation is non-destructive: the featured frame has as many rows
  as the clean frame, and cutting the two derived columns off every featured row gives
  the clean frame back, row by row and in the same order. So the period, the year, the
  month, the volume and the value of every row are unchanged, and the only change is the
  two added columns.
\<close>

theorem create_features_non_destructive:
  "length (create_features df) = length df \<and>
   map df_row.truncate (create_features df) = df"
  by (simp add: create_features_def Let_def split_def comp_def truncate_extend)


subsection \<open>Ingestion\<close>

lemma dropna_cleaned:
  "dropna (map (\<lambda>raw. clean_row parse raw (date_of (year_month raw))) rows)
     = map (cleaned_row parse date_of) (filter (coercible parse) rows)"
  by (induction rows)
     (auto simp: dropna_def cleaned_row_def clean_row_def coercible_def split: prod.splits)

lemma load_and_clean_data_Some:
  assumes "fs filepath = Inr rows" and "to_datetime (map year_month rows) = Inr date_of"
  shows "load_and_clean_data parse to_datetime fs filepath
           = Inr (Some (map (cleaned_row parse date_of) (filter (coercible parse) rows)))"
  using assms by (simp add: load_and_clean_data_def read_csv_def dropna_cleaned)

lemma load_and_clean_data_raises:
  assumes "fs filepath = Inr rows" and "to_datetime (map year_month rows) = Inl e"
  shows "load_and_clean_data parse to_datetime fs filepath = Inl e"
  using assms by (simp add: load_and_clean_data_def read_csv_def)



lemma load_and_clean_data_parsed:
  assumes "fs filepath = Inr rows"
    and "load_and_clean_data parse to_datetime fs filepath = Inr (Some df)"
  shows "\<exists>date_of. to_datetime (map year_month rows) = Inr date_of \<and>
           df = map (cleaned_row parse date_of) (filter (coercible parse) rows)"
proof (cases "to_datetime (map year_month rows)")
  case (Inl e)
  with assms show ?thesis
    by (simp add: load_and_clean_data_raises)
next
  case (Inr date_of)
  with assms show ?thesis
    by (simp add: load_and_clean_data_Some)
qed

lemma reads_valid_dates_strict: "reads_valid_dates strict_to_datetime"
  by (simp add: reads_valid_dates_def strict_to_datetime_def)

lemmas ingest_eval =
  load_and_clean_data_def read_csv_def example_files_def strict_to_datetime_def
  valid_year_month_def valid_row_def year_month_def first_of_month_def
  dropna_def clean_row_def cleaned_row_def coercible_def to_numeric_def example_parse_def

text \<open>
  Claim C6. Whenever ingestion returns a cleaned frame for a table, the frame has at most
  as many rows as the table, it is the table's rows whose volume and value both coerce
  to a number that is not missing, in the table's order and each with the date read for
  it, and a row of the table has its cleaned row in the frame if and only if both of its
  numeric cells coerce so.
\<close>

theorem cleaning_keeps_coercible_rows:
  assumes "fs filepath = Inr rows"
    and "load_and_clean_data parse to_datetime fs filepath = Inr (Some df)"
  shows "\<exists>date_of. to_datetime (map year_month rows) = Inr date_of \<and>
           length df \<le> length rows \<and>
           df = map (cleaned_row parse date_of) (filter (coercible parse) rows) \<and>
           (\<forall>raw \<in> set rows. cleaned_row parse date_of raw \<in> set df \<longleftrightarrow> coercible parse raw)"
proof -
  from assms obtain date_of where d: "to_datetime (map year_month rows) = Inr date_of"
    and df: "df = map (cleaned_row parse date_of) (filter (coercible parse) rows)"
    using load_and_clean_data_parsed by blast
  have len: "length df \<le> length rows"
    unfolding df by simp
  have "cleaned_row parse date_of raw \<in> set df \<longleftrightarrow> coercible parse raw"
    if "raw \<in> set rows" for raw
  proof
    assume "cleaned_row parse date_of raw \<in> set df"
    then obtain raw' where r': "coercible parse raw'"
        "cleaned_row parse date_of raw' = cleaned_row parse date_of raw"
      unfolding df by auto
    obtain y m vol val where raw: "raw = (y, m, vol, val)" by (cases raw)
    obtain y' m' vol' val' where raw': "raw' = (y', m', vol', val')" by (cases raw')
    from r'(2) have "to_numeric parse vol' = to_numeric parse vol"
      and "to_numeric parse val' = to_numeric parse val"
      by (simp_all add: raw raw' cleaned_row_def clean_row_def)
    with r'(1) show "coercible parse raw"
      by (simp add: raw raw' coercible_def)
  next
    assume "coercible parse raw"
    with that show "cleaned_row parse date_of raw \<in> set df"
      unfolding df by simp
  qed
  with d df len show ?thesis by blast
qed

theorem cleaning_keeps_coercible_rows_witness:
  "example_files [(2020, 1, ''5'', ''10''), (2020, 2, ''n/a'', ''12''), (2020, 3, ''6'', ''12'')]
     ''upi_raw_data.csv''
     = Inr [(2020, 1, ''5'', ''10''), (2020, 2, ''n/a'', ''12''), (2020, 3, ''6'', ''12'')] \<and>
   load_and_clean_data example_parse strict_to_datetime
     (example_files [(2020, 1, ''5'', ''10''), (2020, 2, ''n/a'', ''12''), (2020, 3, ''6'', ''12'')])
     ''upi_raw_data.csv''
     = Inr (Some
        [\<lparr>Date = Timestamp 2020 1 1, Year = 2020, Month = 1,
          TransactionVolume_Cr = Fin 5, TransactionValue_RsCr = Fin 10\<rparr>,
         \<lparr>Date = Timestamp 2020 3 1, Year = 2020, Month = 3,
          TransactionVolume_Cr = Fin 6, TransactionValue_RsCr = Fin 12\<rparr>]) \<and>
   \<not> coercible example_parse (2020, 2, ''n/a'', ''12'') \<and>
   cleaned_row example_parse first_of_month (2020, 2, ''n/a'', ''12'') \<notin> set
        [\<lparr>Date = Timestamp 2020 1 1, Year = 2020, Month = 1,
          TransactionVolume_Cr = Fin 5, TransactionValue_RsCr = Fin 10\<rparr>,
         \<lparr>Date = Timestamp 2020 3 1, Year = 2020, Month = 3,
          TransactionVolume_Cr = Fin 6, TransactionValue_RsCr = Fin 12\<rparr>]"
  using cleaning_keeps_coercible_rows
    [of "example_files [(2020, 1, ''5'', ''10''), (2020, 2, ''n/a'', ''12''), (2020, 3, ''6'', ''12'')]"
        "''upi_raw_data.csv''"
        "[(2020, 1, ''5'', ''10''), (2020, 2, ''n/a'', ''12''), (2020, 3, ''6'', ''12'')]"
        example_parse strict_to_datetime
        "[\<lparr>Date = Timestamp 2020 1 1, Year = 2020, Month = 1,
          TransactionVolume_Cr = Fin 5, TransactionValue_RsCr = Fin 10\<rparr>,
         \<lparr>Date = Timestamp 2020 3 1, Year = 2020, Month = 3,
          TransactionVolume_Cr = Fin 6, TransactionValue_RsCr = Fin 12\<rparr>]"]
  by (simp add: ingest_eval)





subsection \<open>Order, split and evaluation\<close>

lemma prophet_df_create_features:
  "prophet_df (create_features df) = map (\<lambda>r. (Date r, TransactionVolume_Cr r)) df"
proof -
  have "prophet_df (create_features df)
      = map (\<lambda>r. (Date r, TransactionVolume_Cr r)) (map df_row.truncate (create_features df))"
    by (simp add: prophet_df_def comp_def df_row.truncate_def)
  then show ?thesis
    by (simp only: truncate_create_features)
qed

lemma train_test_append: "train df @ test df = prophet_df df"
  by (simp add: train_def test_def iloc_upto_neg_def iloc_from_neg_def)

lemma cleaned_dates:
  "map Date (map (cleaned_row parse date_of) rows) = map (\<lambda>raw. date_of (year_month raw)) rows"
  by (induction rows) (auto simp: cleaned_row_def clean_row_def)

lemma split_in_order:
  assumes "sorted (map (\<lambda>r. ts_key (Date r)) df)"
  shows "\<forall>a \<in> set (train (create_features df)). \<forall>b \<in> set (test (create_features df)).
           ts_key (fst a) \<le> ts_key (fst b)"
proof -
  have "map (\<lambda>a. ts_key (fst a)) (train (create_features df) @ test (create_features df))
      = map (\<lambda>r. ts_key (Date r)) df"
    by (simp only: train_test_append prophet_df_create_features) (simp add: comp_def)
  with assms have "sorted (map (\<lambda>a. ts_key (fst a)) (train (create_features df))
                      @ map (\<lambda>a. ts_key (fst a)) (test (create_features df)))"
    by simp
  then show ?thesis
    by (auto simp: sorted_append)
qed

lemma sorted_first_of_month:
  assumes "sorted (map year_month (rows :: raw_row list))"
  shows "sorted (map (\<lambda>raw. ts_key (first_of_month (year_month raw))) rows)"
  using assms
proof (induction rows)
  case Nil
  show ?case by simp
next
  case (Cons r rows)
  have "ts_key (first_of_month (year_month r)) \<le> ts_key (first_of_month (year_month r'))"
    if "r' \<in> set rows" for r'
  proof -
    from Cons.prems that have "year_month r \<le> year_month r'"
      by auto
    then show ?thesis
      by (cases "year_month r"; cases "year_month r'")
         (auto simp: first_of_month_def ts_key_def less_eq_prod_def)
  qed
  with Cons show ?case by simp
qed

text \<open>
  Claim C5, as the code has it. Ingestion does not sort: the cleaned frame keeps the row
  order of the table, its periods being the dates read for the retained rows, in the
  table's order. So the frame is ascending by period when the dates read for the rows of
  the table are ascending in the table's order, and then every period of the training
  prefix is at most every period of the holdout; the prefix and the holdout are taken by
  row position. This is the case when the parser reads valid dates, every row of the
  table has a valid (year, month) and the rows are in ascending (year, month) order.
\<close>

theorem cleaned_series_keeps_input_order:
  assumes "fs filepath = Inr rows"
    and "load_and_clean_data parse to_datetime fs filepath = Inr (Some df)"
  shows "\<exists>date_of. to_datetime (map year_month rows) = Inr date_of \<and>
           map Date df = map (\<lambda>raw. date_of (year_month raw)) (filter (coercible parse) rows) \<and>
           (sorted (map (\<lambda>raw. ts_key (date_of (year_month raw))) rows) \<or>
            reads_valid_dates to_datetime \<and> list_all valid_row rows \<and>
              sorted (map year_month rows) \<longrightarrow>
              sorted (map (\<lambda>r. ts_key (Date r)) df) \<and>
              (\<forall>a \<in> set (train (create_features df)). \<forall>b \<in> set (test (create_features df)).
                 ts_key (fst a) \<le> ts_key (fst b)))"
proof -
  from assms obtain date_of where d: "to_datetime (map year_month rows) = Inr date_of"
    and df: "df = map (cleaned_row parse date_of) (filter (coercible parse) rows)"
    using load_and_clean_data_parsed by blast
  have dates: "map Date df = map (\<lambda>raw. date_of (year_month raw)) (filter (coercible parse) rows)"
    unfolding df by (rule cleaned_dates)
  have ordered: "sorted (map (\<lambda>r. ts_key (Date r)) df) \<and>
      (\<forall>a \<in> set (train (create_features df)). \<forall>b \<in> set (test (create_features df)).
         ts_key (fst a) \<le> ts_key (fst b))"
    if s: "sorted (map (\<lambda>raw. ts_key (date_of (year_month raw))) rows)"
  proof -
    from s have "sorted (map (\<lambda>raw. ts_key (date_of (year_month raw))) (filter (coercible parse) rows))"
      by (rule sorted_filter)
    then have "sorted (map ts_key (map Date df))"
      unfolding dates by (simp add: comp_def)
    then have sd: "sorted (map (\<lambda>r. ts_key (Date r)) df)"
      by (simp add: comp_def)
    with split_in_order [OF sd] show ?thesis by blast
  qed
  have conventional: "sorted (map (\<lambda>raw. ts_key (date_of (year_month raw))) rows)"
    if v: "reads_valid_dates to_datetime" "list_all valid_row rows"
      and s: "sorted (map year_month rows)"
  proof -
    from v(2) have "list_all valid_year_month (map year_month rows)"
      by (simp add: list_all_iff valid_row_def)
    with v(1) obtain date_of' where "to_datetime (map year_month rows) = Inr date_of'"
      and "\<forall>p \<in> set (map year_month rows). date_of' p = first_of_month p"
      unfolding reads_valid_dates_def by blast
    with d have "\<forall>raw \<in> set rows. date_of (year_month raw) = first_of_month (year_month raw)"
      by simp
    then have eq: "map (\<lambda>raw. ts_key (date_of (year_month raw))) rows
             = map (\<lambda>raw. ts_key (first_of_month (year_month raw))) rows"
      by simp
    show ?thesis
      unfolding eq using s by (rule sorted_first_of_month)
  qed
  from d dates ordered conventional show ?thesis by blast
qed

text \<open>
  Claim C2. For a featured frame of \<open>N\<close> rows the training frame is the first
  \<open>N - 12\<close> rows and the holdout the rows from \<open>N - 12\<close> on; together they are the
  whole frame, and for \<open>N \<ge> 12\<close> the holdout has exactly 12 rows. For \<open>N \<le> 12\<close> the
  training frame is empty, fitting the evaluation model on it raises, and the exception
  leaves \<^verbatim>\<open>forecast_transactions\<close>: no metric is computed and no forecast returned.
\<close>

theorem evaluation_split_and_short_series:
  "train df = take (length df - 12) (prophet_df df) \<and>
   test df = drop (length df - 12) (prophet_df df) \<and>
   train df @ test df = prophet_df df \<and>
   (12 \<le> length df \<longrightarrow> length (test df) = 12 \<and> length (train df) = length df - 12) \<and>
   (length df \<le> 12 \<longrightarrow>
      evaluate S C df = Inl (ValueError ''Dataframe has less than 2 non-NaN rows.'') \<and>
      forecast_transactions S C df = Inl (ValueError ''Dataframe has less than 2 non-NaN rows.''))"
proof -
  have tr: "train df = take (length df - 12) (prophet_df df)"
    by (simp add: train_def iloc_upto_neg_def prophet_df_def)
  have te: "test df = drop (length df - 12) (prophet_df df)"
    by (simp add: test_def iloc_from_neg_def prophet_df_def)
  have len: "length (test df) = 12 \<and> length (train df) = length df - 12" if "12 \<le> length df"
    using that unfolding tr te by (simp add: prophet_df_def)
  have short: "evaluate S C df = Inl (ValueError ''Dataframe has less than 2 non-NaN rows.'') \<and>
      forecast_transactions S C df = Inl (ValueError ''Dataframe has less than 2 non-NaN rows.'')"
    if "length df \<le> 12"
  proof -
    from that have "train df = []" unfolding tr by simp
    then have "prophet_fit C (train df) = Inl (ValueError ''Dataframe has less than 2 non-NaN rows.'')"
      by (simp add: prophet_fit_def)
    then have "test_forecast C df = Inl (ValueError ''Dataframe has less than 2 non-NaN rows.'')"
      by (simp add: test_forecast_def)
    then have "evaluate S C df = Inl (ValueError ''Dataframe has less than 2 non-NaN rows.'')"
      by (simp add: evaluate_def)
    then show ?thesis by (simp add: forecast_transactions_def)
  qed
  from tr te len short train_test_append [of df] show ?thesis by blast
qed

text \<open>
  Claim C1. The evaluation is free of leakage. The evaluation model is fitted on the
  training prefix alone and asked to predict for the dates of the holdout alone (12
  dates when the frame has at least 12 rows). So two frames that agree on the training
  prefix and on the dates of the holdout get the same evaluation forecast, whatever the
  volumes of their holdouts are.
\<close>

theorem evaluation_is_leakage_free:
  assumes "train df1 = train df2"
    and "map fst (test df1) = map fst (test df2)"
  shows "test_forecast C df1 = test_forecast C df2 \<and>
         test_forecast C df1 =
           (case prophet_fit C (take (length df1 - 12) (prophet_df df1)) of
              Inl e \<Rightarrow> Inl e
            | Inr model \<Rightarrow> prophet_predict C model (map Date (drop (length df1 - 12) df1))) \<and>
         (12 \<le> length df1 \<longrightarrow> length (map Date (drop (length df1 - 12) df1)) = 12)"
proof -
  have same: "test_forecast C df1 = test_forecast C df2"
    unfolding test_forecast_def assms(1) assms(2) by (rule refl)
  have dates: "map fst (test df1) = map Date (drop (length df1 - 12) df1)"
    by (simp add: test_def iloc_from_neg_def prophet_df_def drop_map comp_def)
  have tr: "train df1 = take (length df1 - 12) (prophet_df df1)"
    by (simp add: train_def iloc_upto_neg_def prophet_df_def)
  have shape: "test_forecast C df1 =
           (case prophet_fit C (take (length df1 - 12) (prophet_df df1)) of
              Inl e \<Rightarrow> Inl e
            | Inr model \<Rightarrow> prophet_predict C model (map Date (drop (length df1 - 12) df1)))"
    unfolding test_forecast_def dates tr by (rule refl)
  from same shape show ?thesis by simp
qed

lemmas example_eval = example_series_def example_core_def prophet_df_create_features
  train_def test_def iloc_upto_neg_def iloc_from_neg_def

theorem evaluation_is_leakage_free_witness:
  "train (create_features (example_series [10, 20, 3, 4, 5, 6, 7, 8, 9, 10, 11, 12, 13, 14]))
     = train (create_features (example_series [10, 20, 30, 40, 50, 60, 70, 80, 90, 100, 110, 120, 130, 140])) \<and>
   map fst (test (create_features (example_series [10, 20, 3, 4, 5, 6, 7, 8, 9, 10, 11, 12, 13, 14])))
     = map fst (test (create_features (example_series [10, 20, 30, 40, 50, 60, 70, 80, 90, 100, 110, 120, 130, 140]))) \<and>
   map snd (test (create_features (example_series [10, 20, 3, 4, 5, 6, 7, 8, 9, 10, 11, 12, 13, 14])))
     \<noteq> map snd (test (create_features (example_series [10, 20, 30, 40, 50, 60, 70, 80, 90, 100, 110, 120, 130, 140]))) \<and>
   test_forecast example_core (create_features (example_series [10, 20, 3, 4, 5, 6, 7, 8, 9, 10, 11, 12, 13, 14]))
     = test_forecast example_core (create_features (example_series [10, 20, 30, 40, 50, 60, 70, 80, 90, 100, 110, 120, 130, 140])) \<and>
   test_forecast example_core (create_features (example_series [10, 20, 3, 4, 5, 6, 7, 8, 9, 10, 11, 12, 13, 14]))
     = Inr (map (\<lambda>d. (d, Fin 15))
            [Timestamp 2020 3 1, Timestamp 2020 4 1, Timestamp 2020 5 1, Timestamp 2020 6 1,
             Timestamp 2020 7 1, Timestamp 2020 8 1, Timestamp 2020 9 1, Timestamp 2020 10 1,
             Timestamp 2020 11 1, Timestamp 2020 12 1, Timestamp 2021 1 1, Timestamp 2021 2 1])"
  using evaluation_is_leakage_free
    [of "create_features (example_series [10, 20, 3, 4, 5, 6, 7, 8, 9, 10, 11, 12, 13, 14])"
        "create_features (example_series [10, 20, 30, 40, 50, 60, 70, 80, 90, 100, 110, 120, 130, 140])"
        example_core]
  by (simp add: example_eval test_forecast_def prophet_fit_def prophet_predict_def ts_key_def)

theorem cleaned_series_keeps_input_order_witness:
  "example_files [(2020, 1, ''5'', ''10''), (2020, 2, ''n/a'', ''12''), (2020, 3, ''6'', ''12'')]
     ''upi_raw_data.csv''
     = Inr [(2020, 1, ''5'', ''10''), (2020, 2, ''n/a'', ''12''), (2020, 3, ''6'', ''12'')] \<and>
   load_and_clean_data example_parse strict_to_datetime
     (example_files [(2020, 1, ''5'', ''10''), (2020, 2, ''n/a'', ''12''), (2020, 3, ''6'', ''12'')])
     ''upi_raw_data.csv''
     = Inr (Some
        [\<lparr>Date = Timestamp 2020 1 1, Year = 2020, Month = 1,
          TransactionVolume_Cr = Fin 5, TransactionValue_RsCr = Fin 10\<rparr>,
         \<lparr>Date = Timestamp 2020 3 1, Year = 2020, Month = 3,
          TransactionVolume_Cr = Fin 6, TransactionValue_RsCr = Fin 12\<rparr>]) \<and>
   reads_valid_dates strict_to_datetime \<and>
   list_all valid_row
     [(2020, 1, ''5'', ''10''), (2020, 2, ''n/a'', ''12''), (2020, 3, ''6'', ''12'')] \<and>
   sorted (map year_month
     [(2020, 1, ''5'', ''10''), (2020, 2, ''n/a'', ''12''), (2020, 3, ''6'', ''12'')]) \<and>
   sorted (map (\<lambda>r. ts_key (Date r))
        [\<lparr>Date = Timestamp 2020 1 1, Year = 2020, Month = 1,
          TransactionVolume_Cr = Fin 5, TransactionValue_RsCr = Fin 10\<rparr>,
         \<lparr>Date = Timestamp 2020 3 1, Year = 2020, Month = 3,
          TransactionVolume_Cr = Fin 6, TransactionValue_RsCr = Fin 12\<rparr>])"
  using cleaned_series_keeps_input_order
    [of "example_files [(2020, 1, ''5'', ''10''), (2020, 2, ''n/a'', ''12''), (2020, 3, ''6'', ''12'')]"
        "''upi_raw_data.csv''"
        "[(2020, 1, ''5'', ''10''), (2020, 2, ''n/a'', ''12''), (2020, 3, ''6'', ''12'')]"
        example_parse strict_to_datetime
        "[\<lparr>Date = Timestamp 2020 1 1, Year = 2020, Month = 1,
          TransactionVolume_Cr = Fin 5, TransactionValue_RsCr = Fin 10\<rparr>,
         \<lparr>Date = Timestamp 2020 3 1, Year = 2020, Month = 3,
          TransactionVolume_Cr = Fin 6, TransactionValue_RsCr = Fin 12\<rparr>]"]
    reads_valid_dates_strict
  by (simp add: ingest_eval ts_key_def)

text \<open>
  The claim as stated fails on a table that lists February before January: the cleaned
  frame has the same two rows in the same order, and its periods are not ascending.
\<close>

theorem unsorted_table_stays_unsorted:
  "load_and_clean_data example_parse strict_to_datetime
     (example_files [(2020, 2, ''5'', ''10''), (2020, 1, ''6'', ''12'')]) ''upi_raw_data.csv''
     = Inr (Some
        [\<lparr>Date = Timestamp 2020 2 1, Year = 2020, Month = 2,
          TransactionVolume_Cr = Fin 5, TransactionValue_RsCr = Fin 10\<rparr>,
         \<lparr>Date = Timestamp 2020 1 1, Year = 2020, Month = 1,
          TransactionVolume_Cr = Fin 6, TransactionValue_RsCr = Fin 12\<rparr>]) \<and>
   \<not> sorted (map (\<lambda>r. ts_key (Date r))
        [\<lparr>Date = Timestamp 2020 2 1, Year = 2020, Month = 2,
          TransactionVolume_Cr = Fin 5, TransactionValue_RsCr = Fin 10\<rparr>,
         \<lparr>Date = Timestamp 2020 1 1, Year = 2020, Month = 1,
          TransactionVolume_Cr = Fin 6, TransactionValue_RsCr = Fin 12\<rparr>])"
  by (simp add: ingest_eval ts_key_def)

theorem evaluation_split_and_short_series_witness:
  "12 \<le> length (create_features (example_series [1, 2, 3, 4, 5, 6, 7, 8, 9, 10, 11, 12])) \<and>
   length (create_features (example_series [1, 2, 3, 4, 5, 6, 7, 8, 9, 10, 11, 12])) \<le> 12 \<and>
   train (create_features (example_series [1, 2, 3, 4, 5, 6, 7, 8, 9, 10, 11, 12])) = [] \<and>
   length (test (create_features (example_series [1, 2, 3, 4, 5, 6, 7, 8, 9, 10, 11, 12]))) = 12 \<and>
   evaluate sequential_sum example_core
       (create_features (example_series [1, 2, 3, 4, 5, 6, 7, 8, 9, 10, 11, 12]))
     = Inl (ValueError ''Dataframe has less than 2 non-NaN rows.'') \<and>
   forecast_transactions sequential_sum example_core
       (create_features (example_series [1, 2, 3, 4, 5, 6, 7, 8, 9, 10, 11, 12]))
     = Inl (ValueError ''Dataframe has less than 2 non-NaN rows.'')"
  using evaluation_split_and_short_series
    [of "create_features (example_series [1, 2, 3, 4, 5, 6, 7, 8, 9, 10, 11, 12])"
        sequential_sum example_core]
  by (simp add: example_series_def train_def test_def iloc_upto_neg_def iloc_from_neg_def
        prophet_df_def)


subsection \<open>The derived metrics\<close>

lemma nth_ffill_from:
  "i < length xs \<Longrightarrow> \<not> isna (xs ! i) \<Longrightarrow> ffill_from p xs ! i = xs ! i"
proof (induction xs arbitrary: p i)
  case Nil
  then show ?case by simp
next
  case (Cons x xs)
  then show ?case by (cases i) auto
qed

lemma nth_ffill: "i < length xs \<Longrightarrow> \<not> isna (xs ! i) \<Longrightarrow> ffill xs ! i = xs ! i"
  by (simp add: ffill_def nth_ffill_from)

lemma nth_shift:
  "i < length xs \<Longrightarrow> shift k xs ! i = (if i < k then NaN else xs ! (i - k))"
  by (auto simp: shift_def nth_append min_def)

lemma nth_pct_change:
  assumes "i < length xs"
  shows "pct_change k xs ! i
       = fsub (fdiv (ffill xs ! i) (if i < k then NaN else ffill xs ! (i - k))) (Fin 1)"
  using assms by (simp add: pct_change_def Let_def nth_shift)

lemma nth_create_features:
  assumes "i < length df"
  shows "AvgTransactionValue_Rs (create_features df ! i)
           = fround2 (fdiv (TransactionValue_RsCr (df ! i)) (TransactionVolume_Cr (df ! i)))"
    and "YoY_Volume_Growth_pct (create_features df ! i)
           = fround2 (fmul (pct_change 12 (map TransactionVolume_Cr df) ! i) (Fin 100))"
  using assms
  by (simp_all add: create_features_def Let_def df_row.extend_def featured_row.fields_def)

lemma fdiv_NaN [simp]: "fdiv x NaN = NaN" "fdiv NaN y = NaN"
  by (simp_all add: fdiv_def)

lemma fsub_NaN [simp]: "fsub NaN y = NaN"
  by (simp add: fsub_def)

lemma fmul_NaN [simp]: "fmul NaN y = NaN"
  by (simp add: fmul_def)

lemma fround2_NaN [simp]: "fround2 NaN = NaN"
  by (simp add: fround2_def)

lemma iszero_simps [simp]:
  "iszero (Fin a) \<longleftrightarrow> a = 0" "iszero NegZero" "\<not> iszero PInf" "\<not> iszero NInf" "\<not> iszero NaN"
  by (simp_all add: iszero_def)

lemma inf_of_simps [simp]:
  "isinf (inf_of s)" "\<not> isna (inf_of s)" "\<not> isfinite (inf_of s)" "\<not> iszero (inf_of s)"
  "signbit (inf_of s) = s"
  by (simp_all add: inf_of_def)

lemma zero_of_simps [simp]:
  "\<not> isinf (zero_of s)" "\<not> isna (zero_of s)" "iszero (zero_of s)" "signbit (zero_of s) = s"
  by (simp_all add: zero_of_def)

lemma round64_not_na [simp]: "\<not> isna (round64 r)"
  by (simp add: round64_def)

lemma fround2_inf_of [simp]: "fround2 (inf_of s) = inf_of s"
  by (simp add: fround2_def fmul_def fdiv_def) (simp add: inf_of_def)

lemma fdiv_not_na:
  "\<not> isna x \<Longrightarrow> isfinite y \<Longrightarrow> \<not> iszero y \<Longrightarrow> \<not> isna (fdiv x y)"
  by (cases y) (auto simp: fdiv_def)

lemma fmul_not_na:
  "\<not> isna x \<Longrightarrow> isfinite y \<Longrightarrow> \<not> iszero y \<Longrightarrow> \<not> isna (fmul x y)"
  by (cases y) (auto simp: fmul_def)

lemma frint_not_na: "\<not> isna x \<Longrightarrow> \<not> isna (frint x)"
  by (cases x) auto

lemma fsub_not_na: "\<not> isna x \<Longrightarrow> isfinite y \<Longrightarrow> \<not> isna (fsub x y)"
  by (cases y) (auto simp: fsub_def)

lemma fround2_not_na: "\<not> isna x \<Longrightarrow> \<not> isna (fround2 x)"
  unfolding fround2_def
  by (intro fdiv_not_na frint_not_na fmul_not_na) simp_all

lemma fdiv_by_zero:
  assumes "iszero y"
  shows "fdiv x y = (if isna x \<or> iszero x then NaN else inf_of (signbit x \<noteq> signbit y))"
  using assms by (cases x; cases y) (auto simp: fdiv_def)

lemma average_close:
  assumes "isfinite x" "isfinite y" "fval y \<noteq> 0" "\<bar>fval x / fval y\<bar> \<le> 2 ^ 980"
  shows "isfinite (fround2 (fdiv x y)) \<and>
         \<bar>fval (fround2 (fdiv x y)) - fval x / fval y\<bar>
           \<le> 1 / 200 + (\<bar>fval x / fval y\<bar> + 1) / 2 ^ 49"
proof -
  define r where "r = fval x / fval y"
  define w where "w = \<bar>r\<bar>"
  define q where "q = fdiv x y"
  have w0: "0 \<le> w" by (simp add: w_def)
  have w: "w \<le> 2 ^ 980" using assms(4) by (simp add: w_def r_def)
  then have "\<bar>fval x / fval y\<bar> \<le> 2 ^ 1000"
    by (simp add: w_def r_def)
  from fdiv_close [OF assms(1,2,3) this]
  have q: "isfinite q" "\<bar>fval q - r\<bar> \<le> (w + 1) / 2 ^ 53"
    by (simp_all add: q_def r_def w_def)
  have "(w + 1) / 2 ^ 53 \<le> w + 1"
    using w0 by (simp add: field_simps)
  with q(2) have aq: "\<bar>fval q\<bar> \<le> 2 * w + 1"
    unfolding w_def by linarith
  then have "\<bar>fval q\<bar> \<le> 2 ^ 990"
    using w by simp
  from fround2_close [OF q(1) this]
  have g: "isfinite (fround2 q)" "\<bar>fval (fround2 q) - fval q\<bar> \<le> 1 / 200 + (\<bar>fval q\<bar> + 1) / 2 ^ 51"
    by simp_all
  have "(\<bar>fval q\<bar> + 1) / 2 ^ 51 \<le> (2 * w + 2) / 2 ^ 51"
    using aq by (intro divide_right_mono) simp_all
  with g(2) have g': "\<bar>fval (fround2 q) - fval q\<bar> \<le> 1 / 200 + (2 * w + 2) / 2 ^ 51"
    by linarith
  have "\<bar>fval (fround2 q) - r\<bar> \<le> \<bar>fval (fround2 q) - fval q\<bar> + \<bar>fval q - r\<bar>"
    by linarith
  also have "\<dots> \<le> 1 / 200 + (2 * w + 2) / 2 ^ 51 + (w + 1) / 2 ^ 53"
    by (intro add_mono g' q(2))
  also have "\<dots> \<le> 1 / 200 + (w + 1) / 2 ^ 49"
    using w0 by (simp add: field_simps)
  finally show ?thesis
    using g(1) by (simp add: q_def r_def w_def)
qed

lemma growth_close:
  assumes "isfinite x" "isfinite y" "fval y \<noteq> 0" "\<bar>fval x / fval y\<bar> \<le> 2 ^ 970"
  shows "isfinite (fround2 (fmul (fsub (fdiv x y) (Fin 1)) (Fin 100))) \<and>
         \<bar>fval (fround2 (fmul (fsub (fdiv x y) (Fin 1)) (Fin 100))) - (fval x / fval y - 1) * 100\<bar>
           \<le> 1 / 200 + (\<bar>fval x / fval y\<bar> + 1) / 2 ^ 40"
proof -
  define r where "r = fval x / fval y"
  define w where "w = \<bar>r\<bar>"
  define u :: real where "u = 1 / 2 ^ 53"
  define q1 where "q1 = fdiv x y"
  define q2 where "q2 = fsub q1 (Fin 1)"
  define q3 where "q3 = fmul q2 (Fin 100)"
  define g where "g = fround2 q3"
  have w0: "0 \<le> w" by (simp add: w_def)
  have u0: "0 \<le> u" and u1: "u \<le> 1 / 1000" by (simp_all add: u_def)
  have w: "w \<le> 2 ^ 970" using assms(4) by (simp add: w_def r_def)
  have wu: "w * u \<le> w / 1000"
    using mult_left_mono [OF u1 w0] by simp
  have "\<bar>fval x / fval y\<bar> \<le> 2 ^ 1000"
    using w by (simp add: w_def r_def)
  from fdiv_close [OF assms(1,2,3) this]
  have q1: "isfinite q1" "\<bar>fval q1 - r\<bar> \<le> (w + 1) * u"
    by (simp_all add: q1_def r_def w_def u_def)
  have a1: "\<bar>fval q1 - 1\<bar> \<le> 2 * w + 2"
    using q1(2) wu u1 unfolding w_def by (simp add: algebra_simps; linarith)
  then have "\<bar>fval q1 - fval (Fin 1)\<bar> \<le> 2 ^ 1000"
    using w by simp
  from fsub_close [OF q1(1) _ this]
  have q2: "isfinite q2" "\<bar>fval q2 - (fval q1 - 1)\<bar> \<le> (\<bar>fval q1 - 1\<bar> + 1) * u"
    by (simp_all add: q2_def u_def)
  have "(\<bar>fval q1 - 1\<bar> + 1) * u \<le> (2 * w + 3) * u"
    using a1 u0 by (intro mult_right_mono) simp_all
  with q2(2) have q2': "\<bar>fval q2 - (fval q1 - 1)\<bar> \<le> (2 * w + 3) * u"
    by linarith
  have e2: "\<bar>fval q2 - (r - 1)\<bar> \<le> (3 * w + 4) * u"
    using q2' q1(2) by (simp add: algebra_simps; linarith)
  have a2: "\<bar>fval q2\<bar> \<le> 2 * w + 2"
    using e2 wu u1 unfolding w_def by (simp add: algebra_simps; linarith)
  then have "\<bar>fval q2 * fval (Fin 100)\<bar> \<le> 2 ^ 1000"
    using w by (simp add: abs_mult)
  from fmul_close [OF q2(1) _ this]
  have q3: "isfinite q3" "\<bar>fval q3 - fval q2 * 100\<bar> \<le> (\<bar>fval q2\<bar> * 100 + 1) * u"
    by (simp_all add: q3_def u_def abs_mult)
  have "(\<bar>fval q2\<bar> * 100 + 1) * u \<le> ((2 * w + 2) * 100 + 1) * u"
    using a2 u0 by (intro mult_right_mono) simp_all
  with q3(2) have q3': "\<bar>fval q3 - fval q2 * 100\<bar> \<le> (200 * w + 201) * u"
    by (simp add: algebra_simps)
  have e3: "\<bar>fval q3 - (r - 1) * 100\<bar> \<le> (500 * w + 601) * u"
    using q3' e2 by (simp add: algebra_simps; linarith)
  have a3: "\<bar>fval q3\<bar> \<le> 101 * w + 101"
    using e3 wu u1 unfolding w_def by (simp add: algebra_simps; linarith)
  then have "\<bar>fval q3\<bar> \<le> 2 ^ 990"
    using w by simp
  from fround2_close [OF q3(1) this]
  have g: "isfinite g" "\<bar>fval g - fval q3\<bar> \<le> 1 / 200 + (\<bar>fval q3\<bar> + 1) / 2 ^ 51"
    by (simp_all add: g_def)
  have "(\<bar>fval q3\<bar> + 1) / 2 ^ 51 = (\<bar>fval q3\<bar> + 1) * (4 * u)"
    by (simp add: u_def)
  also have "\<dots> \<le> (101 * w + 102) * (4 * u)"
    using a3 u0 by (intro mult_right_mono) simp_all
  also have "\<dots> = (404 * w + 408) * u"
    by (simp add: algebra_simps)
  finally have "(\<bar>fval q3\<bar> + 1) / 2 ^ 51 \<le> (404 * w + 408) * u" .
  with g(2) have g': "\<bar>fval g - fval q3\<bar> \<le> 1 / 200 + (404 * w + 408) * u"
    by linarith
  have "\<bar>fval g - (r - 1) * 100\<bar> \<le> 1 / 200 + (904 * w + 1009) * u"
    using g' e3 by (simp add: algebra_simps; linarith)
  also have "\<dots> \<le> 1 / 200 + (w + 1) / 2 ^ 40"
    using w0 by (simp add: u_def field_simps)
  finally show ?thesis
    using g(1) by (simp add: g_def q3_def q2_def q1_def r_def w_def)
qed


lemmas feature_eval =
  create_features_def pct_change_def shift_def ffill_def Let_def
  df_row.extend_def featured_row.fields_def
  fround2_def fdiv_def fmul_def fsub_def

text \<open>
  Claim C4, as the code has it. The average value per unit of a row is the float64
  quotient value / volume put through \<^verbatim>\<open>round(_, 2)\<close>. For a row whose value is finite
  and whose volume is finite and not zero it is never the missing-value marker, and when
  the quotient is below \<open>2\<^sup>9\<^sup>8\<^sup>0\<close> in magnitude it is a finite number within 0.005 (and a
  relative \<open>2\<^sup>-\<^sup>4\<^sup>9\<close>) of the exact quotient, so that average \<times> volume differs from the
  value by at most that tolerance \<times> |volume|. The division never raises. For a row of zero
  volume it gives NaN, the missing-value marker, only when the value is zero or missing
  as well; any other value gives an infinity, of the sign of value and volume together.
\<close>

theorem average_value_per_unit:
  assumes "i < length df"
  shows "(let value = TransactionValue_RsCr (df ! i);
              volume = TransactionVolume_Cr (df ! i);
              avg = AvgTransactionValue_Rs (create_features df ! i);
              tolerance = 1 / 200 + (\<bar>fval value / fval volume\<bar> + 1) / 2 ^ 49
          in avg = fround2 (fdiv value volume) \<and>
             (isfinite value \<and> isfinite volume \<and> fval volume \<noteq> 0 \<longrightarrow>
                \<not> isna avg \<and>
                (\<bar>fval value / fval volume\<bar> \<le> 2 ^ 980 \<longrightarrow>
                   isfinite avg \<and>
                   \<bar>fval avg - fval value / fval volume\<bar> \<le> tolerance \<and>
                   \<bar>fval avg * fval volume - fval value\<bar> \<le> tolerance * \<bar>fval volume\<bar>)) \<and>
             (iszero volume \<longrightarrow>
                avg = (if isna value \<or> iszero value then NaN
                       else inf_of (signbit value \<noteq> signbit volume))))"
proof -
  define x where "x = TransactionValue_RsCr (df ! i)"
  define y where "y = TransactionVolume_Cr (df ! i)"
  define avg where "avg = AvgTransactionValue_Rs (create_features df ! i)"
  define tol where "tol = 1 / 200 + (\<bar>fval x / fval y\<bar> + 1) / 2 ^ 49"
  have avg: "avg = fround2 (fdiv x y)"
    using assms by (simp add: avg_def x_def y_def nth_create_features)
  have nn: "\<not> isna avg" if "isfinite x" "isfinite y" "fval y \<noteq> 0"
  proof -
    have "\<not> isna x" "\<not> iszero y"
      using that by (cases x; cases y; simp)+
    then show ?thesis
      unfolding avg using that(2) by (intro fround2_not_na fdiv_not_na)
  qed
  have close: "isfinite avg \<and> \<bar>fval avg - fval x / fval y\<bar> \<le> tol \<and>
               \<bar>fval avg * fval y - fval x\<bar> \<le> tol * \<bar>fval y\<bar>"
    if f: "isfinite x" "isfinite y" "fval y \<noteq> 0" and b: "\<bar>fval x / fval y\<bar> \<le> 2 ^ 980"
  proof -
    have c: "isfinite avg" "\<bar>fval avg - fval x / fval y\<bar> \<le> tol"
      using average_close [OF f b] by (simp_all add: avg tol_def)
    have "fval avg * fval y - fval x = (fval avg - fval x / fval y) * fval y"
      using f(3) by (simp add: field_simps)
    then have "\<bar>fval avg * fval y - fval x\<bar> = \<bar>fval avg - fval x / fval y\<bar> * \<bar>fval y\<bar>"
      by (simp only: abs_mult)
    also have "\<dots> \<le> tol * \<bar>fval y\<bar>"
      by (intro mult_right_mono c(2)) simp
    finally show ?thesis using c by simp
  qed
  have zero: "avg = (if isna x \<or> iszero x then NaN else inf_of (signbit x \<noteq> signbit y))"
    if "iszero y"
    unfolding avg using fdiv_by_zero [OF that, of x] by simp
  from avg nn close zero show ?thesis
    unfolding Let_def x_def [symmetric] y_def [symmetric] avg_def [symmetric] tol_def [symmetric]
    by blast
qed

text \<open>
  On a period of value 23 and volume 40 the exact quotient is 0.575. Its float64
  neighbour lies below it, the product with 100 below 57.5, and the column holds the
  float64 number nearest to 0.57.
\<close>

theorem average_value_per_unit_witness:
  "(0 :: nat) < length [\<lparr>Date = Timestamp 2020 1 1, Year = 2020, Month = 1,
                    TransactionVolume_Cr = Fin 40, TransactionValue_RsCr = Fin 23\<rparr>] \<and>
   AvgTransactionValue_Rs
     (create_features [\<lparr>Date = Timestamp 2020 1 1, Year = 2020, Month = 1,
                        TransactionVolume_Cr = Fin 40, TransactionValue_RsCr = Fin 23\<rparr>] ! 0)
     = Fin (nearest64 (57 / 100)) \<and>
   \<bar>nearest64 (57 / 100) - 23 / 40\<bar> \<le> 1 / 200 + (23 / 40 + 1) / 2 ^ 49 \<and>
   \<bar>nearest64 (57 / 100) * 40 - 23\<bar> \<le> (1 / 200 + (23 / 40 + 1) / 2 ^ 49) * 40 \<and>
   rint (23 / 40 * 100) = 58"
proof -
  have e: "fround2 (fdiv (Fin 23) (Fin 40)) = Fin (nearest64 (57 / 100))"
    by (simp add: fround2_def fdiv_def fmul_def float_eval)
  show ?thesis
    using average_value_per_unit
      [of 0 "[\<lparr>Date = Timestamp 2020 1 1, Year = 2020, Month = 1,
                TransactionVolume_Cr = Fin 40, TransactionValue_RsCr = Fin 23\<rparr>]"]
    by (simp add: Let_def nth_create_features e) (simp add: rint_def)
qed

text \<open>
  The claim as stated fails on a period of volume 0 and value 5: the row is retained by
  cleaning, and its average value per unit is an infinity, not the missing-value marker.
\<close>

theorem zero_volume_gives_infinity:
  "(case load_and_clean_data example_parse strict_to_datetime
          (example_files [(2020, 1, ''0'', ''5'')]) ''upi_raw_data.csv'' of
      Inr (Some df) \<Rightarrow>
        map TransactionVolume_Cr df = [Fin 0] \<and>
        map AvgTransactionValue_Rs (create_features df) = [PInf]
    | _ \<Rightarrow> False)"
  by (simp add: ingest_eval feature_eval inf_of_def)


text \<open>
  Claim C3, as the code has it. The year-over-year growth is NaN, the missing-value
  marker, at each of the first 12 positions. At a position \<open>t \<ge> 12\<close> where the volumes
  at \<open>t\<close> and \<open>t - 12\<close> are not missing, it is the float64 evaluation of
  \<^verbatim>\<open>round((volume[t] / volume[t - 12] - 1) * 100, 2)\<close>. Where both volumes are finite
  and the one at \<open>t - 12\<close> is not zero it is never NaN, and when the quotient of the two
  is below \<open>2\<^sup>9\<^sup>7\<^sup>0\<close> in magnitude it is a finite number within 0.005 (and a relative
  \<open>2\<^sup>-\<^sup>4\<^sup>0\<close>) of the exact growth. Where the volume at \<open>t - 12\<close> is zero, it is NaN again
  when the volume at \<open>t\<close> is zero too, and an infinity when that volume is finite and not
  zero.
\<close>

theorem yoy_growth:
  assumes "i < length df"
  shows "(let now = TransactionVolume_Cr (df ! i);
              before = TransactionVolume_Cr (df ! (i - 12));
              yoy = YoY_Volume_Growth_pct (create_features df ! i)
          in (i < 12 \<longrightarrow> yoy = NaN) \<and>
             (12 \<le> i \<longrightarrow>
                (\<not> isna now \<and> \<not> isna before \<longrightarrow>
                   yoy = fround2 (fmul (fsub (fdiv now before) (Fin 1)) (Fin 100))) \<and>
                (isfinite now \<and> isfinite before \<and> fval before \<noteq> 0 \<longrightarrow>
                   \<not> isna yoy \<and>
                   (\<bar>fval now / fval before\<bar> \<le> 2 ^ 970 \<longrightarrow>
                      isfinite yoy \<and>
                      \<bar>fval yoy - (fval now / fval before - 1) * 100\<bar>
                        \<le> 1 / 200 + (\<bar>fval now / fval before\<bar> + 1) / 2 ^ 40)) \<and>
                (iszero now \<and> iszero before \<longrightarrow> yoy = NaN) \<and>
                (isfinite now \<and> \<not> iszero now \<and> iszero before \<longrightarrow> isinf yoy)))"
proof -
  define x where "x = TransactionVolume_Cr (df ! i)"
  define y where "y = TransactionVolume_Cr (df ! (i - 12))"
  define yoy where "yoy = YoY_Volume_Growth_pct (create_features df ! i)"
  let ?v = "map TransactionVolume_Cr df"
  have len: "i < length ?v" using assms by simp
  have raw: "yoy = fround2 (fmul (fsub (fdiv (ffill ?v ! i)
                                       (if i < 12 then NaN else ffill ?v ! (i - 12))) (Fin 1))
                           (Fin 100))"
    using assms nth_pct_change [OF len, of 12] by (simp add: yoy_def nth_create_features)
  have early: "yoy = NaN" if "i < 12"
    using that raw by simp
  have eq: "yoy = fround2 (fmul (fsub (fdiv x y) (Fin 1)) (Fin 100))"
    if "12 \<le> i" "\<not> isna x" "\<not> isna y"
  proof -
    have "i - 12 < length ?v" using len by simp
    with that len have "ffill ?v ! i = x" "ffill ?v ! (i - 12) = y"
      using nth_ffill [of i ?v] nth_ffill [of "i - 12" ?v] assms by (simp_all add: x_def y_def)
    with that(1) raw show ?thesis by simp
  qed
  have fin: "\<not> isna yoy \<and>
             (\<bar>fval x / fval y\<bar> \<le> 2 ^ 970 \<longrightarrow>
                isfinite yoy \<and>
                \<bar>fval yoy - (fval x / fval y - 1) * 100\<bar> \<le> 1 / 200 + (\<bar>fval x / fval y\<bar> + 1) / 2 ^ 40)"
    if i: "12 \<le> i" and f: "isfinite x" "isfinite y" "fval y \<noteq> 0"
  proof -
    have n: "\<not> isna x" "\<not> isna y" "\<not> iszero y"
      using f by (cases x; cases y; simp)+
    have e: "yoy = fround2 (fmul (fsub (fdiv x y) (Fin 1)) (Fin 100))"
      using i n(1,2) by (rule eq)
    have "\<not> isna yoy"
      unfolding e using n f(2)
      by (intro fround2_not_na fmul_not_na fsub_not_na fdiv_not_na) simp_all
    moreover have "isfinite yoy \<and>
        \<bar>fval yoy - (fval x / fval y - 1) * 100\<bar> \<le> 1 / 200 + (\<bar>fval x / fval y\<bar> + 1) / 2 ^ 40"
      if "\<bar>fval x / fval y\<bar> \<le> 2 ^ 970"
      unfolding e using f that by (rule growth_close)
    ultimately show ?thesis by blast
  qed
  have zz: "yoy = NaN" if "12 \<le> i" "iszero x" "iszero y"
  proof -
    have "\<not> isna x" "\<not> isna y" using that by (cases x; cases y; simp)+
    with that(1) have "yoy = fround2 (fmul (fsub (fdiv x y) (Fin 1)) (Fin 100))" by (rule eq)
    then show ?thesis using that(2,3) by (simp add: fdiv_by_zero)
  qed
  have nz: "isinf yoy" if "12 \<le> i" "isfinite x" "\<not> iszero x" "iszero y"
  proof -
    have "\<not> isna x" "\<not> isna y" using that by (cases x; cases y; simp)+
    with that(1) have "yoy = fround2 (fmul (fsub (fdiv x y) (Fin 1)) (Fin 100))" by (rule eq)
    moreover have "fdiv x y = inf_of (signbit x \<noteq> signbit y)"
      using that \<open>\<not> isna x\<close> by (simp add: fdiv_by_zero)
    ultimately show ?thesis
      by (simp add: fsub_def fmul_def)
  qed
  from early eq fin zz nz show ?thesis
    unfolding Let_def x_def [symmetric] y_def [symmetric] yoy_def [symmetric]
    by blast
qed

text \<open>
  On a series whose volume goes from 20000 to 20027 within twelve months the exact
  growth is 0.135 per cent. The float64 quotient minus 1, times 100, lies below 0.135,
  its product with 100 below 13.5, and the column holds the float64 number nearest to
  0.13.
\<close>

theorem yoy_growth_witness:
  "(12 :: nat) < length (example_series
       [20000, 20, 30, 40, 50, 60, 70, 80, 90, 100, 110, 120, 20027]) \<and>
   YoY_Volume_Growth_pct
     (create_features (example_series
       [20000, 20, 30, 40, 50, 60, 70, 80, 90, 100, 110, 120, 20027]) ! 12)
     = Fin (nearest64 (13 / 100)) \<and>
   \<bar>nearest64 (13 / 100) - (20027 / 20000 - 1) * 100\<bar> \<le> 1 / 200 + (20027 / 20000 + 1) / 2 ^ 40 \<and>
   rint ((20027 / 20000 - 1) * 100 * 100) = 14 \<and>
   YoY_Volume_Growth_pct
     (create_features (example_series
       [20000, 20, 30, 40, 50, 60, 70, 80, 90, 100, 110, 120, 20027]) ! 11)
     = NaN"
proof -
  let ?df = "example_series [20000, 20, 30, 40, 50, 60, 70, 80, 90, 100, 110, 120, 20027]"
  have v: "(12 :: nat) < length ?df"
    "TransactionVolume_Cr (?df ! 12) = Fin 20027"
    "TransactionVolume_Cr (?df ! (12 - 12)) = Fin 20000"
    by (simp_all add: example_series_def)
  have e: "fround2 (fmul (fsub (fdiv (Fin 20027) (Fin 20000)) (Fin 1)) (Fin 100))
             = Fin (nearest64 (13 / 100))"
    by (simp add: fround2_def fdiv_def fmul_def fsub_def float_eval)
  have r: "rint ((20027 / 20000 - 1) * 100 * 100) = 14"
    by (simp add: rint_def)
  have a: "YoY_Volume_Growth_pct (create_features ?df ! 12) = Fin (nearest64 (13 / 100)) \<and>
     \<bar>nearest64 (13 / 100) - (20027 / 20000 - 1) * 100\<bar> \<le> 1 / 200 + (20027 / 20000 + 1) / 2 ^ 40"
    using yoy_growth [of 12 ?df] v by (auto simp add: Let_def e)
  have b: "YoY_Volume_Growth_pct (create_features ?df ! 11) = NaN"
    using yoy_growth [of 11 ?df] v(1) by (simp add: Let_def)
  from v(1) a b r show ?thesis by blast
qed

text \<open>
  The claim as stated fails on a series of 13 months whose first and last volumes are
  zero: the growth of the thirteenth period is \<open>0 / 0\<close>, hence undefined beyond the
  first 12 periods.
\<close>

theorem yoy_undefined_after_first_year:
  "(case load_and_clean_data example_parse strict_to_datetime
          (example_files
            [(2020, 1, ''0'', ''5''), (2020, 2, ''5'', ''10''), (2020, 3, ''5'', ''10''),
             (2020, 4, ''5'', ''10''), (2020, 5, ''5'', ''10''), (2020, 6, ''5'', ''10''),
             (2020, 7, ''5'', ''10''), (2020, 8, ''5'', ''10''), (2020, 9, ''5'', ''10''),
             (2020, 10, ''5'', ''10''), (2020, 11, ''5'', ''10''), (2020, 12, ''5'', ''10''),
             (2021, 1, ''0'', ''5'')])
          ''upi_raw_data.csv'' of
      Inr (Some df) \<Rightarrow>
        length df = 13 \<and>
        TransactionVolume_Cr (df ! 12) = Fin 0 \<and>
        TransactionVolume_Cr (df ! 0) = Fin 0 \<and>
        YoY_Volume_Growth_pct (create_features df ! 12) = NaN
    | _ \<Rightarrow> False)"
  by (simp add: ingest_eval) (simp add: nth_create_features nth_pct_change ffill_def fdiv_def)

subsection \<open>The scorer\<close>

lemma nonneg_simps [simp]:
  "nonneg (Fin a) \<longleftrightarrow> 0 \<le> a" "\<not> nonneg NegZero" "nonneg PInf" "\<not> nonneg NInf" "\<not> nonneg NaN"
  by (auto simp: nonneg_def)

lemma nonneg_round64: "0 \<le> r \<Longrightarrow> nonneg (round64 r)"
  by (simp add: round64_def zero_of_def inf_of_def nearest64_nonneg)

lemma nonneg_fadd: "nonneg a \<Longrightarrow> nonneg b \<Longrightarrow> nonneg (fadd a b)"
  by (cases a; cases b) (simp_all add: fadd_def nonneg_round64)

lemma sums_to_nonneg: "sums_to A s \<Longrightarrow> \<forall>x \<in># A. nonneg x \<Longrightarrow> nonneg s"
  by (induction rule: sums_to.induct) (simp_all add: nonneg_fadd)

lemma nonneg_fabs: "\<not> isna x \<Longrightarrow> nonneg (fabs x)"
  by (cases x) simp_all

lemma nonneg_square: "\<not> isna d \<Longrightarrow> nonneg (fmul d d)"
  by (cases d) (simp_all add: fmul_def nonneg_round64 zero_of_def inf_of_def)

lemma nonneg_fdiv: "nonneg x \<Longrightarrow> 0 < n \<Longrightarrow> nonneg (fdiv x (Fin (real n)))"
  by (cases x) (simp_all add: fdiv_def nonneg_round64 zero_of_def inf_of_def)

lemma nonneg_fsqrt: "nonneg x \<Longrightarrow> nonneg (fsqrt x)"
  by (cases x) (simp_all add: nonneg_round64)

lemma nonneg_mean:
  assumes "numpy_sum S" "xs \<noteq> []" "\<forall>x \<in> set xs. nonneg x"
  shows "nonneg (mean S xs)"
proof -
  have "sums_to (mset xs) (S xs)"
    using assms(1,2) by (simp add: numpy_sum_def)
  moreover have "\<forall>x \<in># mset xs. nonneg x"
    using assms(3) by simp
  ultimately have "nonneg (S xs)"
    by (rule sums_to_nonneg)
  moreover have "0 < length xs" using assms(2) by simp
  ultimately show ?thesis
    unfolding mean_def by (rule nonneg_fdiv)
qed

lemma check_targets_Inr:
  "check_targets y_true y_pred = Inr u \<longleftrightarrow>
     length y_true = length y_pred \<and> y_true \<noteq> [] \<and>
     list_all isfinite y_true \<and> list_all isfinite y_pred"
  by (auto simp: check_targets_def)

lemma score_Inr:
  "score S y_true y_pred = Inr m \<longleftrightarrow>
     check_targets y_true y_pred = Inr () \<and>
     m = (mean S (map2 (\<lambda>t p. fabs (fsub p t)) y_true y_pred),
          fsqrt (mean S (map2 (\<lambda>t p. fmul (fsub t p) (fsub t p)) y_true y_pred)))"
  by (cases "check_targets y_true y_pred")
     (auto simp: score_def mean_absolute_error_def mean_squared_error_def)

lemma score_nonneg:
  assumes S: "numpy_sum S" and s: "score S y_true y_pred = Inr (mae, rmse)"
  shows "nonneg mae \<and> nonneg rmse"
proof -
  from s have c: "length y_true = length y_pred" "y_true \<noteq> []"
      "list_all isfinite y_true" "list_all isfinite y_pred"
    and mae: "mae = mean S (map2 (\<lambda>t p. fabs (fsub p t)) y_true y_pred)"
    and rmse: "rmse = fsqrt (mean S (map2 (\<lambda>t p. fmul (fsub t p) (fsub t p)) y_true y_pred))"
    by (simp_all add: score_Inr check_targets_Inr)
  have ne: "map2 f y_true y_pred \<noteq> []" for f :: "float64 \<Rightarrow> float64 \<Rightarrow> float64"
    using c(1,2) by (cases y_true; cases y_pred) simp_all
  have fin: "isfinite t \<and> isfinite p" if "(t, p) \<in> set (zip y_true y_pred)" for t p
    using that c(3,4) by (auto simp: list_all_iff dest: set_zip_leftD set_zip_rightD)
  have d: "\<not> isna (fsub a b)" if "isfinite a" "isfinite b" for a b
    using that by (intro fsub_not_na) (cases a, simp_all)
  have "nonneg (fabs (fsub p t))" if "(t, p) \<in> set (zip y_true y_pred)" for t p
    using fin [OF that] by (intro nonneg_fabs d) simp_all
  then have "\<forall>x \<in> set (map2 (\<lambda>t p. fabs (fsub p t)) y_true y_pred). nonneg x"
    by auto
  with S ne have 1: "nonneg mae"
    unfolding mae by (intro nonneg_mean)
  have "nonneg (fmul (fsub t p) (fsub t p))" if "(t, p) \<in> set (zip y_true y_pred)" for t p
    using fin [OF that] by (intro nonneg_square d) simp_all
  then have "\<forall>x \<in> set (map2 (\<lambda>t p. fmul (fsub t p) (fsub t p)) y_true y_pred). nonneg x"
    by auto
  with S ne have "nonneg rmse"
    unfolding rmse by (intro nonneg_fsqrt nonneg_mean)
  with 1 show ?thesis by simp
qed

lemma sums_to_foldl: "sums_to A a \<Longrightarrow> sums_to (A + mset xs) (foldl fadd a xs)"
proof (induction xs arbitrary: A a)
  case Nil
  then show ?case by simp
next
  case (Cons x xs)
  have "sums_to (A + {#x#}) (fadd a x)"
    using Cons.prems sums_to.entry by (rule sums_to.add)
  then have "sums_to (A + {#x#} + mset xs) (foldl fadd (fadd a x) xs)"
    by (rule Cons.IH)
  then show ?case by (simp add: ac_simps)
qed

lemma numpy_sum_sequential: "numpy_sum sequential_sum"
  unfolding numpy_sum_def
proof (intro allI impI)
  fix xs :: "float64 list"
  assume "xs \<noteq> []"
  then obtain x ys where xs: "xs = x # ys" by (cases xs) auto
  have "sums_to ({#x#} + mset ys) (foldl fadd x ys)"
    using sums_to.entry by (rule sums_to_foldl)
  then show "sums_to (mset xs) (sequential_sum xs)"
    by (simp add: xs)
qed

text \<open>
  Numbers that are multiples of one power of two add up without rounding, in any order,
  as long as their sum has at most 53 bits.
\<close>

lemma round64_multiple:
  assumes "- 1074 \<le> e" "e \<le> 900" "real n * 2 powi e < 2 ^ 53 * 2 powi e"
  shows "round64 (real n * 2 powi e) = Fin (real n * 2 powi e)"
proof (cases "n = 0")
  case True
  then show ?thesis by (simp add: round64_def)
next
  case False
  have p: "(0::real) < 2 powi e" by (simp add: zero_less_power_int)
  from assms(3) p have n: "real n < 2 ^ 53" by simp
  then have n': "\<bar>int n\<bar> < 2 ^ 53"
    by (metis abs_of_nat of_nat_less_numeral_power_cancel_iff of_nat_less_iff of_nat_numeral of_nat_power)
  have lo: "2 powi (- 1074) \<le> (2::real) powi e"
    using assms(1) by (intro power_int_increasing) simp_all
  have "1 / 2 ^ 1075 < (2::real) powi (- 1074)"
    by (simp add: power_int_minus field_simps)
  also have "\<dots> \<le> 1 * 2 powi e" using lo by simp
  also have "\<dots> \<le> real n * 2 powi e"
    using False p by (intro mult_right_mono) simp_all
  finally have 1: "\<not> \<bar>real n * 2 powi e\<bar> \<le> 1 / 2 ^ 1075"
    using p by (simp add: abs_mult)
  have "real n * 2 powi e < 2 ^ 53 * 2 powi e" by (rule assms(3))
  also have "\<dots> \<le> 2 ^ 53 * 2 powi 900"
    using assms(2) by (intro mult_left_mono power_int_increasing) simp_all
  also have "\<dots> < 2 ^ 1024 - 2 ^ 970"
    by simp
  finally have 2: "\<not> 2 ^ 1024 - 2 ^ 970 \<le> \<bar>real n * 2 powi e\<bar>"
    using p by (simp add: abs_mult)
  have 3: "real n * 2 powi e \<noteq> 0"
    using False p by simp
  have "nearest64 (of_int (int n) * 2 powi e) = of_int (int n) * 2 powi e"
    using n' assms(1) by (rule nearest64_representable)
  then have "nearest64 (real n * 2 powi e) = real n * 2 powi e"
    by simp
  with 1 2 3 show ?thesis
    by (simp only: round64_def if_False)
qed

lemma sum_fval_nonneg:
  "\<forall>x \<in># A. 0 \<le> fval x \<Longrightarrow> 0 \<le> (\<Sum>x \<in># A. fval x)"
  by (induction A) simp_all

lemma sums_to_exact:
  assumes "sums_to A s"
    and "- 1074 \<le> e" "e \<le> 900"
    and "\<forall>x \<in># A. \<exists>k :: nat. x = Fin (real k * 2 powi e)"
    and "(\<Sum>x \<in># A. fval x) < 2 ^ 53 * 2 powi e"
  shows "\<exists>n :: nat. s = Fin (real n * 2 powi e) \<and> real n * 2 powi e = (\<Sum>x \<in># A. fval x)"
  using assms(1,4,5)
proof (induction rule: sums_to.induct)
  case (entry x)
  then show ?case by auto
next
  case (add A a B b)
  have p: "(0::real) < 2 powi e" by (simp add: zero_less_power_int)
  have nn: "0 \<le> fval x" if "x \<in># A + B" for x
  proof -
    from add.prems(1) that obtain k :: nat where "x = Fin (real k * 2 powi e)" by blast
    then show ?thesis using p by simp
  qed
  have nnA: "0 \<le> (\<Sum>x \<in># A. fval x)"
    by (intro sum_fval_nonneg) (simp add: nn)
  have nnB: "0 \<le> (\<Sum>x \<in># B. fval x)"
    by (intro sum_fval_nonneg) (simp add: nn)
  from add.prems(2) nnA nnB
  have "(\<Sum>x \<in># A. fval x) < 2 ^ 53 * 2 powi e" "(\<Sum>x \<in># B. fval x) < 2 ^ 53 * 2 powi e"
    by simp_all
  with add.IH add.prems(1) obtain n m :: nat
    where a: "a = Fin (real n * 2 powi e)" "real n * 2 powi e = (\<Sum>x \<in># A. fval x)"
      and b: "b = Fin (real m * 2 powi e)" "real m * 2 powi e = (\<Sum>x \<in># B. fval x)"
    by auto
  have sum: "real (n + m) * 2 powi e = (\<Sum>x \<in># A + B. fval x)"
    using a(2) b(2) by (simp add: algebra_simps)
  have "fadd a b = Fin (real (n + m) * 2 powi e)"
  proof (cases "n + m = 0")
    case True
    then show ?thesis by (simp add: a b fadd_def)
  next
    case False
    then have "0 < real n + real m"
      by linarith
    then have "0 < (real n + real m) * 2 powi e"
      using p by (rule mult_pos_pos)
    then have "real n * 2 powi e + real m * 2 powi e \<noteq> 0"
      by (simp only: distrib_right)
    then have "fadd a b = round64 (real n * 2 powi e + real m * 2 powi e)"
      by (simp add: a b fadd_def)
    also have "\<dots> = round64 (real (n + m) * 2 powi e)"
      by (simp add: algebra_simps)
    also have "\<dots> = Fin (real (n + m) * 2 powi e)"
      using assms(2,3) add.prems(2) unfolding sum [symmetric] by (rule round64_multiple)
    finally show ?thesis .
  qed
  with sum show ?case by blast
qed

lemma numpy_sum_exact:
  assumes "numpy_sum S" "ks \<noteq> []" "- 1074 \<le> e" "e \<le> 900" "sum_list ks < 2 ^ 53"
  shows "S (map (\<lambda>k. Fin (real k * 2 powi e)) ks) = Fin (real (sum_list ks) * 2 powi e)"
proof -
  let ?xs = "map (\<lambda>k. Fin (real k * 2 powi e)) ks"
  have p: "(0::real) < 2 powi e" by simp
  have "?xs \<noteq> []"
    using assms(2) by simp
  with assms(1) have s: "sums_to (mset ?xs) (S ?xs)"
    unfolding numpy_sum_def by blast
  have v: "(\<Sum>x \<in># mset ?xs. fval x) = real (sum_list ks) * 2 powi e"
    by (induction ks) (simp_all add: algebra_simps)
  have "real (sum_list ks) < 2 ^ 53"
    using assms(5) by (metis of_nat_less_numeral_power_cancel_iff)
  then have b: "(\<Sum>x \<in># mset ?xs. fval x) < 2 ^ 53 * 2 powi e"
    unfolding v using p by simp
  have "\<forall>x \<in># mset ?xs. \<exists>k :: nat. x = Fin (real k * 2 powi e)"
    by auto
  from sums_to_exact [OF s assms(3,4) this b] show ?thesis
    unfolding v by auto
qed


lemma numpy_sum_naturals:
  assumes "numpy_sum S" "ks \<noteq> []" "sum_list ks < 2 ^ 53"
  shows "S (map (\<lambda>k. Fin (real k)) ks) = Fin (real (sum_list ks))"
  using numpy_sum_exact [OF assms(1,2), of 0] assms(3) by simp

lemma fsub_Fin:
  "a - b = d \<Longrightarrow> d \<noteq> 0 \<Longrightarrow> fsub (Fin a) (Fin b) = round64 d"
  by (simp add: fsub_def)

lemma round64_small_integers:
  "round64 1 = Fin 1" "round64 5 = Fin 5" "round64 (- 1) = Fin (- 1)" "round64 (- 5) = Fin (- 5)"
  "round64 25 = Fin 25" "round64 3 = Fin 3"
  by (simp_all add: float_eval)

lemma known_errors_absolute:
  assumes "length ts = length es" "\<forall>e \<in> set es. e = 1 \<or> e = 5"
  shows "map2 (\<lambda>t p. fabs (fsub p t)) (map Fin ts) (map Fin (map2 (\<lambda>t e. t - e) ts es))
           = map Fin es"
  using assms
proof (induction ts es rule: list_induct2)
  case Nil
  show ?case by simp
next
  case (Cons t ts e es)
  have "fabs (fsub (Fin (t - e)) (Fin t)) = Fin e"
  proof -
    have "e = 1 \<or> e = 5" using Cons.prems by simp
    moreover have "fsub (Fin (t - e)) (Fin t) = round64 (- e)" if "e \<noteq> 0"
      using that by (intro fsub_Fin) simp_all
    ultimately show ?thesis
      by (auto simp: round64_small_integers)
  qed
  with Cons show ?case by simp
qed

lemma known_errors_squared:
  assumes "length ts = length es" "\<forall>e \<in> set es. e = 1 \<or> e = 5"
  shows "map2 (\<lambda>t p. fmul (fsub t p) (fsub t p)) (map Fin ts) (map Fin (map2 (\<lambda>t e. t - e) ts es))
           = map (\<lambda>e. Fin (e * e)) es"
  using assms
proof (induction ts es rule: list_induct2)
  case Nil
  show ?case by simp
next
  case (Cons t ts e es)
  have "fmul (fsub (Fin t) (Fin (t - e))) (fsub (Fin t) (Fin (t - e))) = Fin (e * e)"
  proof -
    have "e = 1 \<or> e = 5" using Cons.prems by simp
    moreover have "fsub (Fin t) (Fin (t - e)) = round64 e" if "e \<noteq> 0"
      using that by (intro fsub_Fin) simp_all
    ultimately show ?thesis
      by (auto simp: round64_small_integers fmul_def)
  qed
  with Cons show ?case by simp
qed

lemma sqrt3_bounds: "17 / 10 < sqrt 3" "sqrt 3 < 2"
proof -
  have "(17 / 10 :: real)\<^sup>2 < 3" by (simp add: power2_eq_square)
  then show "17 / 10 < sqrt 3" by (rule real_less_rsqrt)
  have "(3 :: real) < 2\<^sup>2" by simp
  then show "sqrt 3 < 2" by (intro real_less_lsqrt) simp_all
qed

lemma round64_sqrt3: "round64 (sqrt 3) = Fin (nearest64 (sqrt 3))"
  using sqrt3_bounds by (simp add: round64_def)

lemma nearest64_sqrt3_greater: "nearest64 (4 / 3) < nearest64 (sqrt 3)"
proof -
  have a: "\<bar>nearest64 (4 / 3) - 4 / 3\<bar> \<le> \<bar>4 / 3\<bar> / 2 ^ 53 + 1 / 2 ^ 1075"
    by (rule nearest64_close)
  have b: "\<bar>nearest64 (sqrt 3) - sqrt 3\<bar> \<le> \<bar>sqrt 3\<bar> / 2 ^ 53 + 1 / 2 ^ 1075"
    by (rule nearest64_close)
  have "(1 :: real) / 2 ^ 1075 \<le> 1 / 100" by simp
  moreover have "\<bar>4 / 3 :: real\<bar> / 2 ^ 53 \<le> 1 / 100" by simp
  moreover have "\<bar>sqrt 3\<bar> / 2 ^ 53 \<le> 1 / 100"
    using sqrt3_bounds by simp
  ultimately have "nearest64 (4 / 3) < 3 / 2" "3 / 2 < nearest64 (sqrt 3)"
    using a b sqrt3_bounds by linarith+
  then show ?thesis by linarith
qed

lemma known_errors_score:
  assumes S: "numpy_sum S" and l: "length ts = 12"
  shows "score S (map Fin ts) (map Fin (map2 (\<lambda>t e. t - e) ts known_errors))
           = Inr (Fin (nearest64 (4 / 3)), Fin (nearest64 (sqrt 3)))"
proof -
  let ?ps = "map Fin (map2 (\<lambda>t e. t - e) ts known_errors)"
  have le: "length ts = length known_errors"
    using l by (simp add: known_errors_def)
  have es: "\<forall>e \<in> set known_errors. e = 1 \<or> e = 5"
    by (simp add: known_errors_def)
  have c: "check_targets (map Fin ts) ?ps = Inr ()"
    using l by (auto simp: check_targets_Inr known_errors_def list_all_iff)
  have "map Fin known_errors = map (\<lambda>k. Fin (real k)) [1, 1, 1, 1, 1, 1, 1, 1, 1, 1, 1, 5]"
    by (simp add: known_errors_def)
  then have "S (map Fin known_errors) = Fin 16"
    using numpy_sum_naturals [OF S, of "[1, 1, 1, 1, 1, 1, 1, 1, 1, 1, 1, 5]"] by simp
  then have mae: "mean S (map Fin known_errors) = Fin (nearest64 (4 / 3))"
    by (simp add: mean_def known_errors_def fdiv_def float_eval)
  have "map (\<lambda>e. Fin (e * e)) known_errors
          = map (\<lambda>k. Fin (real k)) [1, 1, 1, 1, 1, 1, 1, 1, 1, 1, 1, 25]"
    by (simp add: known_errors_def)
  then have "S (map (\<lambda>e. Fin (e * e)) known_errors) = Fin 36"
    using numpy_sum_naturals [OF S, of "[1, 1, 1, 1, 1, 1, 1, 1, 1, 1, 1, 25]"] by simp
  then have "mean S (map (\<lambda>e. Fin (e * e)) known_errors) = Fin 3"
    by (simp add: mean_def known_errors_def fdiv_def round64_small_integers)
  then have rmse: "fsqrt (mean S (map (\<lambda>e. Fin (e * e)) known_errors)) = Fin (nearest64 (sqrt 3))"
    by (simp add: round64_sqrt3)
  show ?thesis
    unfolding score_Inr known_errors_absolute [OF le es] known_errors_squared [OF le es]
    using c mae rmse by simp
qed

text \<open>
  Twelve errors of \<open>2\<^sup>-\<^sup>6\<^sup>0\<^sup>0\<close>: their sum is exact in any order and the mean absolute
  error is \<open>2\<^sup>-\<^sup>6\<^sup>0\<^sup>0\<close>, but each square underflows to zero.
\<close>

lemma tiny_error_power: "2 powi (- 600) = tiny_error"
  by (simp add: tiny_error_def power_int_minus inverse_eq_divide)

lemma tiny_error_bounds:
  "tiny_error \<noteq> 0" "0 < tiny_error"
  "\<not> \<bar>tiny_error\<bar> \<le> 1 / 2 ^ 1075" "\<not> 2 ^ 1024 - 2 ^ 970 \<le> \<bar>tiny_error\<bar>"
  "tiny_error * tiny_error \<noteq> 0" "\<bar>tiny_error * tiny_error\<bar> \<le> 1 / 2 ^ 1075"
  by (simp_all add: tiny_error_def)

lemma nearest64_tiny:
  "nearest64 tiny_error = tiny_error" "nearest64 (- tiny_error) = - tiny_error"
proof -
  have "nearest64 (of_int 1 * 2 powi (- 600)) = of_int 1 * 2 powi (- 600)"
    by (rule nearest64_representable) simp_all
  then show "nearest64 tiny_error = tiny_error"
    unfolding tiny_error_power by simp
  have "nearest64 (of_int (- 1) * 2 powi (- 600)) = of_int (- 1) * 2 powi (- 600)"
    by (rule nearest64_representable) simp_all
  then show "nearest64 (- tiny_error) = - tiny_error"
    unfolding tiny_error_power by simp
qed

lemma round64_tiny:
  "round64 tiny_error = Fin tiny_error"
  "round64 (- tiny_error) = Fin (- tiny_error)"
  "round64 (tiny_error * tiny_error) = Fin 0"
  using tiny_error_bounds by (simp_all add: round64_def nearest64_tiny zero_of_def)

lemma tiny_errors_score:
  assumes S: "numpy_sum S"
  shows "score S (replicate 12 (Fin tiny_error)) (replicate 12 (Fin 0))
           = Inr (Fin tiny_error, Fin 0)"
proof -
  let ?c = "tiny_error"
  have c: "check_targets (replicate 12 (Fin ?c)) (replicate 12 (Fin 0)) = Inr ()"
    by (simp add: check_targets_Inr list_all_iff)
  have d1: "fabs (fsub (Fin 0) (Fin ?c)) = Fin ?c"
    using tiny_error_bounds(1,2) by (simp add: fsub_def round64_tiny)
  have a: "map2 (\<lambda>t p. fabs (fsub p t)) (replicate 12 (Fin ?c)) (replicate 12 (Fin 0))
             = map (\<lambda>k. Fin (real k * ?c)) (replicate 12 1)"
    by (simp add: zip_replicate d1)
  have "S (map (\<lambda>k. Fin (real k * 2 powi (- 600))) (replicate 12 1))
          = Fin (real (sum_list (replicate 12 1)) * 2 powi (- 600))"
    using S by (rule numpy_sum_exact) (simp_all add: sum_list_replicate)
  then have "S (map (\<lambda>k. Fin (real k * ?c)) (replicate 12 1)) = Fin (12 * ?c)"
    unfolding tiny_error_power by (simp add: sum_list_replicate)
  then have mae: "mean S (map (\<lambda>k. Fin (real k * ?c)) (replicate 12 1)) = Fin ?c"
    using tiny_error_bounds(1) by (simp add: mean_def fdiv_def round64_tiny)
  have "fsub (Fin ?c) (Fin 0) = Fin ?c"
    using tiny_error_bounds(1) by (simp add: fsub_def round64_tiny)
  moreover have "fmul (Fin ?c) (Fin ?c) = Fin 0"
    using tiny_error_bounds(1) by (simp add: fmul_def round64_tiny)
  ultimately have b: "map2 (\<lambda>t p. fmul (fsub t p) (fsub t p))
                        (replicate 12 (Fin ?c)) (replicate 12 (Fin 0))
             = map (\<lambda>k. Fin (real k)) (replicate 12 0)"
    by (simp add: zip_replicate)
  have "S (map (\<lambda>k. Fin (real k)) (replicate 12 0)) = Fin (real (sum_list (replicate 12 0)))"
    using S by (rule numpy_sum_naturals) (simp_all add: sum_list_replicate)
  then have "mean S (map (\<lambda>k. Fin (real k)) (replicate 12 0)) = Fin 0"
    by (simp add: mean_def fdiv_def zero_of_def)
  then have rmse: "fsqrt (mean S (map (\<lambda>k. Fin (real k)) (replicate 12 0))) = Fin 0"
    by simp
  show ?thesis
    unfolding score_Inr a b using c mae rmse by simp
qed

text \<open>
  Claim C9, as the code has it. The scorer returns its two metrics exactly when the two
  vectors have the same length, at least one entry and only finite entries. Whenever it
  returns them, for a holdout of actual volumes and a vector of predicted volumes and
  whatever the order in which numpy adds the errors up, neither metric is NaN or
  negative: MAE and RMSE lie between the positive zero and \<open>+\<infinity>\<close>; the same holds for
  the metrics the evaluation prints. For a holdout of 12 volumes predicted with the
  errors 1, 1, 1, 1, 1, 1, 1, 1, 1, 1, 1, 5 the MAE is the float64 number nearest to 4/3
  and the RMSE the one nearest to the square root of 3, which is greater. That RMSE is
  at least MAE is not asserted: the float64 metrics do not satisfy it for every holdout.
\<close>

theorem scorer_metrics_nonnegative:
  assumes "numpy_sum S"
  shows "((\<exists>m. score S y_true y_pred = Inr m) \<longleftrightarrow>
            length y_true = length y_pred \<and> y_true \<noteq> [] \<and>
            list_all isfinite y_true \<and> list_all isfinite y_pred) \<and>
         (\<forall>mae rmse. score S y_true y_pred = Inr (mae, rmse) \<longrightarrow> nonneg mae \<and> nonneg rmse) \<and>
         (\<forall>mae rmse. evaluate S C df = Inr (mae, rmse) \<longrightarrow> nonneg mae \<and> nonneg rmse) \<and>
         (\<forall>ts. length ts = 12 \<longrightarrow>
            score S (map Fin ts) (map Fin (map2 (\<lambda>t e. t - e) ts known_errors))
              = Inr (Fin (nearest64 (4 / 3)), Fin (nearest64 (sqrt 3))) \<and>
            nearest64 (4 / 3) < nearest64 (sqrt 3))"
proof (intro conjI allI impI)
  show "(\<exists>m. score S y_true y_pred = Inr m) \<longleftrightarrow>
            length y_true = length y_pred \<and> y_true \<noteq> [] \<and>
            list_all isfinite y_true \<and> list_all isfinite y_pred"
    by (simp add: score_Inr check_targets_Inr)
next
  fix mae rmse
  assume "score S y_true y_pred = Inr (mae, rmse)"
  with assms have b: "nonneg mae \<and> nonneg rmse" by (rule score_nonneg)
  from b show "nonneg mae" by blast
  from b show "nonneg rmse" by blast
next
  fix mae rmse
  assume ev: "evaluate S C df = Inr (mae, rmse)"
  have b: "nonneg mae \<and> nonneg rmse"
  proof (cases "test_forecast C df")
    case (Inl e)
    with ev show ?thesis by (simp add: evaluate_def)
  next
    case (Inr fc)
    with ev have "score S (map snd (test df)) (map snd fc) = Inr (mae, rmse)"
      by (simp add: evaluate_def)
    with assms show ?thesis by (rule score_nonneg)
  qed
  from b show "nonneg mae" by blast
  from b show "nonneg rmse" by blast
next
  fix ts :: "real list"
  assume "length ts = 12"
  with assms show "score S (map Fin ts) (map Fin (map2 (\<lambda>t e. t - e) ts known_errors))
              = Inr (Fin (nearest64 (4 / 3)), Fin (nearest64 (sqrt 3)))"
    by (rule known_errors_score)
next
  show "nearest64 (4 / 3) < nearest64 (sqrt 3)"
    by (rule nearest64_sqrt3_greater)
qed

theorem scorer_metrics_nonnegative_witness:
  "numpy_sum sequential_sum \<and>
   length [100, 110, 120, 130, 140, 150, 160, 170, 180, 190, 200, 210 :: real] = 12 \<and>
   score sequential_sum
         (map Fin [100, 110, 120, 130, 140, 150, 160, 170, 180, 190, 200, 210])
         (map Fin [99, 109, 119, 129, 139, 149, 159, 169, 179, 189, 199, 205])
     = Inr (Fin (nearest64 (4 / 3)), Fin (nearest64 (sqrt 3))) \<and>
   nonneg (Fin (nearest64 (4 / 3))) \<and> nonneg (Fin (nearest64 (sqrt 3))) \<and>
   nearest64 (4 / 3) < nearest64 (sqrt 3)"
proof -
  note t = scorer_metrics_nonnegative
    [OF numpy_sum_sequential,
     of "map Fin [100, 110, 120, 130, 140, 150, 160, 170, 180, 190, 200, 210]"
        "map Fin [99, 109, 119, 129, 139, 149, 159, 169, 179, 189, 199, 205]"
        example_core "[]"]
  have l: "length [100, 110, 120, 130, 140, 150, 160, 170, 180, 190, 200, 210 :: real] = 12"
    by simp
  have p: "map2 (\<lambda>t e. t - e) [100, 110, 120, 130, 140, 150, 160, 170, 180, 190, 200, 210]
             known_errors
           = [99, 109, 119, 129, 139, 149, 159, 169, 179, 189, 199, 205]"
    by (simp add: known_errors_def)
  from t l have s: "score sequential_sum
         (map Fin [100, 110, 120, 130, 140, 150, 160, 170, 180, 190, 200, 210])
         (map Fin (map2 (\<lambda>t e. t - e) [100, 110, 120, 130, 140, 150, 160, 170, 180, 190, 200, 210]
             known_errors))
     = Inr (Fin (nearest64 (4 / 3)), Fin (nearest64 (sqrt 3)))"
    and g: "nearest64 (4 / 3) < nearest64 (sqrt 3)"
    by blast+
  from s have s': "score sequential_sum
         (map Fin [100, 110, 120, 130, 140, 150, 160, 170, 180, 190, 200, 210])
         (map Fin [99, 109, 119, 129, 139, 149, 159, 169, 179, 189, 199, 205])
     = Inr (Fin (nearest64 (4 / 3)), Fin (nearest64 (sqrt 3)))"
    unfolding p .
  with t have "nonneg (Fin (nearest64 (4 / 3))) \<and> nonneg (Fin (nearest64 (sqrt 3)))"
    by blast
  with numpy_sum_sequential l s' g show ?thesis by blast
qed

text \<open>
  The claim as stated fails on a holdout of twelve volumes of \<open>2\<^sup>-\<^sup>6\<^sup>0\<^sup>0\<close> predicted as
  0: every error is \<open>2\<^sup>-\<^sup>6\<^sup>0\<^sup>0\<close> and so is the MAE, but the square of the error underflows
  to zero, and the RMSE is 0, less than the MAE.
\<close>

theorem rmse_below_mae_by_underflow:
  "score sequential_sum (replicate 12 (Fin tiny_error)) (replicate 12 (Fin 0))
     = Inr (Fin tiny_error, Fin 0) \<and>
   tiny_error = 1 / 2 ^ 600 \<and> (0 :: real) < tiny_error"
  using tiny_errors_score [OF numpy_sum_sequential] tiny_error_bounds(2)
  by (simp add: tiny_error_def)


subsection \<open>The forecast grid\<close>

lemma ts_key_inj: "ts_key a = ts_key b \<longleftrightarrow> a = b"
  by (cases a; cases b) (simp add: ts_key_def)

lemma next_month_start_greater: "ts_key d < ts_key (next_month_start d)"
  by (cases d) (simp add: next_month_start_def ts_key_def)

lemma length_month_starts [simp]: "length (month_starts d n) = n"
  by (induction n arbitrary: d) auto

lemma month_starts_lower: "x \<in> set (month_starts d n) \<Longrightarrow> ts_key d \<le> ts_key x"
proof (induction n arbitrary: d)
  case 0
  then show ?case by simp
next
  case (Suc n)
  from Suc.prems have "x = d \<or> x \<in> set (month_starts (next_month_start d) n)" by simp
  then show ?case
  proof
    assume "x = d" then show ?thesis by simp
  next
    assume "x \<in> set (month_starts (next_month_start d) n)"
    then have "ts_key (next_month_start d) \<le> ts_key x" by (rule Suc.IH)
    with next_month_start_greater [of d] show ?thesis by (meson less_le_trans less_imp_le)
  qed
qed

lemma month_starts_after:
  "x \<in> set (month_starts (next_month_start d) n) \<Longrightarrow> ts_key d < ts_key x"
  using month_starts_lower [of x "next_month_start d" n] next_month_start_greater [of d]
  by (meson less_le_trans)

lemma month_starts_increasing: "sorted_wrt (\<lambda>a b. ts_key a < ts_key b) (month_starts d n)"
  by (induction n arbitrary: d) (auto simp: month_starts_after)

lemma month_starts_steps: "monthly_steps (month_starts d n)"
  unfolding monthly_steps_def
  by (induction n arbitrary: d) (auto simp: successively_Cons, (case_tac n; simp)+)

lemma month_starts_day:
  "x \<in> set (month_starts (next_month_start d) n) \<Longrightarrow> ts_day x = 1"
proof (induction n arbitrary: d)
  case 0
  then show ?case by simp
next
  case (Suc n)
  then show ?case by (auto simp: next_month_start_def)
qed

lemma take_month_starts: "take n (month_starts d (Suc n)) = month_starts d n"
  by (induction n arbitrary: d) auto

lemma filter_after_month_starts:
  "filter (\<lambda>x. ts_key d < ts_key x) (month_starts (next_month_start d) n)
     = month_starts (next_month_start d) n"
  by (rule filter_True) (simp add: month_starts_after)

lemma date_range_future:
  assumes "date_range_MS start (Suc n) = Inr dates"
  shows "take n (filter (\<lambda>x. ts_key start < ts_key x) dates)
           = month_starts (next_month_start start) n"
proof (cases "ts_day start = 1")
  case True
  with assms have "dates = start # month_starts (next_month_start start) n"
    by (simp add: date_range_MS_def Let_def split: if_splits)
  then show ?thesis
    by (simp add: filter_after_month_starts)
next
  case False
  with assms have "dates = month_starts (next_month_start start) (Suc n)"
    by (simp add: date_range_MS_def Let_def split: if_splits)
  then have "filter (\<lambda>x. ts_key start < ts_key x) dates = month_starts (next_month_start start) (Suc n)"
    using filter_after_month_starts [of start "Suc n"] by simp
  then show ?thesis
    by (simp only: take_month_starts)
qed

lemma make_future_dataframe_Inr:
  assumes "make_future_dataframe m n = Inr g"
  shows "history_dates m \<noteq> [] \<and>
         g = history_dates m @
             month_starts (next_month_start (last (sort_key ts_key (history_dates m)))) n"
proof (cases "history_dates m")
  case Nil
  with assms show ?thesis by (simp add: make_future_dataframe_def)
next
  case (Cons h hs)
  let ?l = "last (sort_key ts_key (history_dates m))"
  show ?thesis
  proof (cases "date_range_MS ?l (Suc n)")
    case (Inl e)
    with assms Cons show ?thesis by (simp add: make_future_dataframe_def Let_def)
  next
    case (Inr dates)
    then have "take n (filter (\<lambda>x. ts_key ?l < ts_key x) dates)
           = month_starts (next_month_start ?l) n"
      by (rule date_range_future)
    with assms Cons Inr show ?thesis
      by (simp add: make_future_dataframe_def Let_def)
  qed
qed

lemma prophet_fit_history:
  assumes "prophet_fit C pdf = Inr m"
  shows "history_dates m = sort_key ts_key (remdups (map fst pdf))"
  using assms by (auto simp: prophet_fit_def Let_def split: if_splits sum.splits)

lemma prophet_predict_dates:
  assumes "prophet_predict C m ds = Inr fc"
  shows "map fst fc = sort_key ts_key ds"
  using assms by (auto simp: prophet_predict_def comp_def split: if_splits)

lemma history_strictly_sorted:
  "sorted_wrt (\<lambda>a b. ts_key a < ts_key b) (sort_key ts_key (remdups xs))"
proof -
  let ?H = "sort_key ts_key (remdups xs)"
  have "sorted (map ts_key ?H)" by simp
  moreover have "distinct (map ts_key ?H)"
    by (simp add: distinct_map inj_on_def ts_key_inj)
  ultimately have "sorted_wrt (<) (map ts_key ?H)"
    by (simp add: strict_sorted_iff)
  then show ?thesis by (simp add: sorted_wrt_map)
qed

lemma strictly_sorted_sort_id:
  assumes "sorted_wrt (\<lambda>a b. ts_key a < ts_key b) xs"
  shows "sort_key ts_key xs = xs"
proof -
  from assms have "sorted_wrt (<) (map ts_key xs)" by (simp add: sorted_wrt_map)
  then have "sorted (map ts_key xs)" by (rule strict_sorted_imp_sorted)
  then show ?thesis by (rule sort_key_id_if_sorted)
qed

lemma strictly_sorted_distinct:
  assumes "sorted_wrt (\<lambda>a b. ts_key a < ts_key b) xs"
  shows "distinct xs"
proof -
  from assms have "sorted_wrt (<) (map ts_key xs)" by (simp add: sorted_wrt_map)
  then have "distinct (map ts_key xs)" by (simp add: strict_sorted_iff)
  then show ?thesis by (simp add: distinct_map)
qed

lemma strictly_sorted_last:
  assumes "sorted_wrt (\<lambda>a b. ts_key a < ts_key b) xs" and "x \<in> set xs"
  shows "ts_key x \<le> ts_key (last xs)"
  using assms
proof (induction xs)
  case Nil
  then show ?case by simp
next
  case (Cons y ys)
  show ?case
  proof (cases "ys = []")
    case True
    with Cons.prems show ?thesis by simp
  next
    case False
    then have l: "last ys \<in> set ys" by simp
    show ?thesis
    proof (cases "x = y")
      case True
      with Cons.prems(1) l have "ts_key x < ts_key (last ys)" by simp
      with False show ?thesis by simp
    next
      case neq: False
      with Cons.prems have "x \<in> set ys" "sorted_wrt (\<lambda>a b. ts_key a < ts_key b) ys" by simp_all
      with Cons.IH False show ?thesis by simp
    qed
  qed
qed

lemma grid_strictly_sorted:
  assumes "sorted_wrt (\<lambda>a b. ts_key a < ts_key b) H"
  shows "sorted_wrt (\<lambda>a b. ts_key a < ts_key b) (H @ month_starts (next_month_start (last H)) n)"
proof -
  have "ts_key x < ts_key y"
    if "x \<in> set H" "y \<in> set (month_starts (next_month_start (last H)) n)" for x y
    using strictly_sorted_last [OF assms that(1)] month_starts_after [OF that(2)]
    by (rule le_less_trans)
  with assms show ?thesis
    by (simp add: sorted_wrt_append month_starts_increasing)
qed

lemma monthly_steps_increasing:
  assumes "monthly_steps ds"
  shows "sorted_wrt (\<lambda>a b. ts_key a < ts_key b) ds"
proof -
  from assms have "successively (\<lambda>a b. ts_key a < ts_key b) ds"
    unfolding monthly_steps_def
    by (rule successively_mono) (simp add: next_month_start_greater)
  moreover have "transp (\<lambda>a b. ts_key a < ts_key b)"
    by (rule transpI) (rule less_trans)
  ultimately show ?thesis
    by (simp add: successively_conv_sorted_wrt)
qed

lemma monthly_steps_extend:
  assumes "monthly_steps ds"
  shows "monthly_steps (ds @ month_starts (next_month_start (last ds)) n)"
proof (cases n)
  case 0
  with assms show ?thesis by simp
next
  case (Suc k)
  then have "hd (month_starts (next_month_start (last ds)) n) = next_month_start (last ds)"
    by simp
  with assms month_starts_steps [of "next_month_start (last ds)" n] show ?thesis
    unfolding monthly_steps_def by (simp add: successively_append_iff)
qed

lemma final_forecast_grid:
  assumes "final_forecast C df = Inr fc"
  shows "map fst fc
       = sort_key ts_key (remdups (map Date df)) @
         month_starts (next_month_start (last (sort_key ts_key (remdups (map Date df))))) 24"
proof -
  let ?H = "sort_key ts_key (remdups (map Date df))"
  from assms obtain m where m: "prophet_fit C (prophet_df df) = Inr m"
    by (cases "prophet_fit C (prophet_df df)") (simp_all add: final_forecast_def)
  then have h: "history_dates m = ?H"
    using prophet_fit_history [OF m] by (simp add: prophet_df_def comp_def)
  from assms m obtain g where g: "make_future_dataframe m 24 = Inr g"
    by (cases "make_future_dataframe m 24") (simp_all add: final_forecast_def)
  have hs: "sorted_wrt (\<lambda>a b. ts_key a < ts_key b) ?H"
    by (rule history_strictly_sorted)
  have "sort_key ts_key ?H = ?H"
    using hs by (rule strictly_sorted_sort_id)
  with make_future_dataframe_Inr [OF g] h
  have grid: "g = ?H @ month_starts (next_month_start (last ?H)) 24"
    by simp
  from assms m g have "prophet_predict C m g = Inr fc"
    by (simp add: final_forecast_def)
  then have "map fst fc = sort_key ts_key g"
    by (rule prophet_predict_dates)
  also have "\<dots> = g"
    unfolding grid using grid_strictly_sorted [OF hs] by (rule strictly_sorted_sort_id)
  finally show ?thesis
    unfolding grid .
qed


lemma final_forecast_history_nonempty:
  assumes "final_forecast C df = Inr fc"
  shows "sort_key ts_key (remdups (map Date df)) \<noteq> []"
proof -
  from assms obtain m where m: "prophet_fit C (prophet_df df) = Inr m"
    by (cases "prophet_fit C (prophet_df df)") (simp_all add: final_forecast_def)
  then have "length (filter (\<lambda>(d, y). \<not> isna y) (prophet_df df)) \<ge> 2"
    by (auto simp: prophet_fit_def Let_def split: if_splits)
  then have "prophet_df df \<noteq> []" by auto
  then have "set (map Date df) \<noteq> {}" by (simp add: prophet_df_def)
  then have "set (sort_key ts_key (remdups (map Date df))) \<noteq> {}" by simp
  then show ?thesis by (metis set_empty)
qed

lemma next_month_start_first_of_month:
  "first_of_month_date d \<Longrightarrow> first_of_month_date (next_month_start d)"
  by (auto simp: first_of_month_date_def next_month_start_def)

lemma month_starts_first_of_month:
  "first_of_month_date d \<Longrightarrow> list_all first_of_month_date (month_starts d n)"
  by (induction n arbitrary: d) (auto simp: next_month_start_first_of_month)

lemma forecast_transactions_final:
  assumes "forecast_transactions S C df = Inr (metrics, fc)"
  shows "final_forecast C df = Inr fc"
  using assms by (auto simp: forecast_transactions_def split: sum.splits)

text \<open>
  Claim C8, as the code has it. Whenever \<^verbatim>\<open>forecast_transactions\<close> returns a forecast,
  its periods are the distinct historical periods in ascending order followed by the 24
  month starts after the last historical period, each of the 24 exactly one month after
  the period before it. The grid is strictly increasing and has no duplicate, its length
  is the number of distinct historical periods plus 24, and its periods are first-of-month
  dates when the historical ones are. When the historical periods are consecutive months
  (every row one month after the row before), the length is the number of rows plus 24
  and every step of the grid is exactly one month.
\<close>

theorem forecast_grid:
  assumes "forecast_transactions S C df = Inr (metrics, fc)"
  shows "(let H = sort_key ts_key (remdups (map Date df));
              F = month_starts (next_month_start (last H)) 24
          in map fst fc = H @ F \<and> monthly_steps (last H # F)) \<and>
         length fc = card (set (map Date df)) + 24 \<and>
         sorted_wrt (\<lambda>a b. ts_key a < ts_key b) (map fst fc) \<and>
         distinct (map fst fc) \<and>
         (list_all first_of_month_date (map Date df)
            \<longrightarrow> list_all first_of_month_date (map fst fc)) \<and>
         (monthly_steps (map Date df)
            \<longrightarrow> length fc = length df + 24 \<and> monthly_steps (map fst fc))"
proof -
  let ?D = "map Date df"
  let ?H = "sort_key ts_key (remdups ?D)"
  let ?F = "month_starts (next_month_start (last ?H)) 24"
  have ff: "final_forecast C df = Inr fc"
    using assms by (rule forecast_transactions_final)
  have grid: "map fst fc = ?H @ ?F"
    using ff by (rule final_forecast_grid)
  have ne: "?H \<noteq> []"
    using ff by (rule final_forecast_history_nonempty)
  have hs: "sorted_wrt (\<lambda>a b. ts_key a < ts_key b) ?H"
    by (rule history_strictly_sorted)
  have tail: "monthly_steps (last ?H # ?F)"
    using month_starts_steps [of "last ?H" "Suc 24"] by (simp del: One_nat_def add: numeral_eq_Suc)
  have "length (map fst fc) = length ?H + 24"
    unfolding grid by simp
  then have len: "length fc = card (set ?D) + 24"
    by (simp add: length_remdups_card_conv)
  have sorted: "sorted_wrt (\<lambda>a b. ts_key a < ts_key b) (map fst fc)"
    unfolding grid using hs by (rule grid_strictly_sorted)
  then have dist: "distinct (map fst fc)"
    by (rule strictly_sorted_distinct)
  have fom: "list_all first_of_month_date (map fst fc)"
    if d: "list_all first_of_month_date ?D"
  proof -
    have h: "list_all first_of_month_date ?H"
      using d by (simp add: list_all_iff)
    have "last ?H \<in> set ?H" using ne by (rule last_in_set)
    with h have "first_of_month_date (last ?H)" by (auto simp: list_all_iff)
    then have "list_all first_of_month_date ?F"
      by (intro month_starts_first_of_month next_month_start_first_of_month)
    with h show ?thesis unfolding grid by simp
  qed
  have contiguous: "length fc = length df + 24 \<and> monthly_steps (map fst fc)"
    if m: "monthly_steps ?D"
  proof -
    have s: "sorted_wrt (\<lambda>a b. ts_key a < ts_key b) ?D"
      using m by (rule monthly_steps_increasing)
    then have r: "remdups ?D = ?D"
      by (intro distinct_remdups_id strictly_sorted_distinct)
    have H: "?H = ?D"
      unfolding r using s by (rule strictly_sorted_sort_id)
    have "monthly_steps (?D @ month_starts (next_month_start (last ?D)) 24)"
      using m by (rule monthly_steps_extend)
    then have "monthly_steps (map fst fc)"
      unfolding grid H .
    moreover have "length (map fst fc) = length df + 24"
      unfolding grid H by simp
    ultimately show ?thesis by simp
  qed
  from grid tail len sorted dist fom contiguous show ?thesis
    by (simp add: Let_def)
qed

lemma dates_create_features: "map Date (create_features df) = map Date df"
  using arg_cong [OF prophet_df_create_features, of "map fst" df]
  by (simp add: prophet_df_def comp_def)

lemma month_starts_numeral:
  "month_starts d (numeral k) = d # month_starts (next_month_start d) (pred_numeral k)"
  by (simp add: numeral_eq_Suc)

lemmas forecast_eval =
  forecast_transactions_def evaluate_def test_forecast_def final_forecast_def score_def
  mean_absolute_error_def mean_squared_error_def check_targets_def mean_def
  prophet_fit_def prophet_predict_def make_future_dataframe_def date_range_MS_def
  ts_in_bounds_def ts_key_def Let_def
  train_def test_def iloc_upto_neg_def iloc_from_neg_def prophet_df_create_features
  example_core_def

lemmas month_eval = month_starts_numeral next_month_start_def


theorem forecast_grid_witness:
  "monthly_steps (map Date (create_features
       (example_series [10, 20, 30, 40, 50, 60, 70, 80, 90, 100, 110, 120, 130, 140]))) \<and>
   (\<exists>metrics fc.
      forecast_transactions sequential_sum example_core (create_features
        (example_series [10, 20, 30, 40, 50, 60, 70, 80, 90, 100, 110, 120, 130, 140]))
        = Inr (metrics, fc) \<and>
      length fc = 38 \<and> monthly_steps (map fst fc) \<and> distinct (map fst fc))"
proof -
  let ?df = "create_features
       (example_series [10, 20, 30, 40, 50, 60, 70, 80, 90, 100, 110, 120, 130, 140])"
  have steps: "monthly_steps (map Date ?df)"
    by (simp add: dates_create_features monthly_steps_def example_series_def next_month_start_def)
  have "\<exists>r. forecast_transactions sequential_sum example_core ?df = Inr r"
    by (simp add: forecast_eval example_series_def) (simp add: forecast_eval month_eval)
  then obtain metrics fc where r: "forecast_transactions sequential_sum example_core ?df = Inr (metrics, fc)"
    by auto
  have g: "distinct (map fst fc)"
    "monthly_steps (map Date ?df) \<longrightarrow> length fc = length ?df + 24 \<and> monthly_steps (map fst fc)"
    using forecast_grid [OF r] by blast+
  have "length ?df = 14"
    by (simp add: example_series_def)
  with g steps have "length fc = 38 \<and> monthly_steps (map fst fc) \<and> distinct (map fst fc)"
    by simp
  with steps r show ?thesis by blast
qed

text \<open>
  The claim as stated fails on a table of 15 months whose March volume is not a number:
  cleaning drops the row, the forecast is returned with 14 + 24 periods, and its grid
  steps from February 2020 to April 2020.
\<close>

theorem dropped_row_leaves_a_gap_in_the_grid:
  "(case load_and_clean_data example_parse strict_to_datetime
          (example_files
            [(2020, 1, ''5'', ''10''), (2020, 2, ''5'', ''10''), (2020, 3, ''n/a'', ''10''),
             (2020, 4, ''5'', ''10''), (2020, 5, ''5'', ''10''), (2020, 6, ''5'', ''10''),
             (2020, 7, ''5'', ''10''), (2020, 8, ''5'', ''10''), (2020, 9, ''5'', ''10''),
             (2020, 10, ''5'', ''10''), (2020, 11, ''5'', ''10''), (2020, 12, ''5'', ''10''),
             (2021, 1, ''5'', ''10''), (2021, 2, ''5'', ''10''), (2021, 3, ''5'', ''10'')])
          ''upi_raw_data.csv'' of
      Inr (Some df) \<Rightarrow>
        (case forecast_transactions sequential_sum example_core (create_features df) of
           Inr (metrics, fc) \<Rightarrow>
             length df = 14 \<and> length fc = 38 \<and>
             take 3 (map fst fc) = [Timestamp 2020 1 1, Timestamp 2020 2 1, Timestamp 2020 4 1] \<and>
             \<not> monthly_steps (map fst fc)
         | Inl e \<Rightarrow> False)
    | _ \<Rightarrow> False)"
  by (simp add: ingest_eval forecast_eval) (simp add: forecast_eval month_eval monthly_steps_def)

end
